theory Spec2Isabelle
  imports Complex_Main
begin

section \<open>The numpy operations the notebook uses\<close>

text \<open>
  The notebook \<^verbatim>\<open>hex_fdm_example.ipynb\<close> builds two meshes of \<open>N * N\<close> nodes with numpy
  index arithmetic. Index values are Python integers, modelled as \<open>int\<close>; a
  one-dimensional array is a list, a two-dimensional array is the list of its rows.
  Floating-point values are modelled as exact reals.
\<close>

text \<open>\<^verbatim>\<open>np.arange(a, b)\<close>: the integers \<open>a, a+1, ..., b-1\<close>.\<close>

definition arange :: "int \<Rightarrow> int \<Rightarrow> int list" where
  "arange a b = [a..b - 1]"

text \<open>The slice \<^verbatim>\<open>v[::2]\<close>: the entries at positions 0, 2, 4, ...\<close>

fun every_other :: "'a list \<Rightarrow> 'a list" where
  "every_other [] = []"
| "every_other [x] = [x]"
| "every_other (x # y # xs) = x # every_other xs"

text \<open>
  \<^verbatim>\<open>np.vstack((v0, v1, ...)).T\<close> for vectors of one length: row \<open>m\<close> of the result
  collects entry \<open>m\<close> of every stacked vector.
\<close>

definition stackT :: "'a list list \<Rightarrow> 'a list list" where
  "stackT vs = map (\<lambda>m. map (\<lambda>v. v ! m) vs) [0..<length (hd vs)]"

text \<open>\<^verbatim>\<open>A + c\<close> for a two-dimensional integer array \<open>A\<close> and a scalar \<open>c\<close>.\<close>

definition shift :: "int \<Rightarrow> int list list \<Rightarrow> int list list" where
  "shift c A = map (map (\<lambda>v. v + c)) A"

text \<open>The column slice \<^verbatim>\<open>A[:,p]\<close>.\<close>

definition column :: "nat \<Rightarrow> 'a list list \<Rightarrow> 'a list" where
  "column p A = map (\<lambda>r. r ! p) A"

text \<open>
  \<^verbatim>\<open>idx, jdx = np.meshgrid(xs, ys)\<close> followed by an elementwise expression in
  \<open>idx\<close> and \<open>jdx\<close>: entry \<open>[j][i]\<close> of the result is the expression at
  \<open>idx = xs[i]\<close>, \<open>jdx = ys[j]\<close>.
\<close>

definition meshgrid :: "('a \<Rightarrow> 'b \<Rightarrow> 'c) \<Rightarrow> 'a list \<Rightarrow> 'b list \<Rightarrow> 'c list list" where
  "meshgrid f xs ys = map (\<lambda>y. map (\<lambda>x. f x y) xs) ys"

section \<open>Configuration\<close>

datatype error = AssertionError

text \<open>\<^verbatim>\<open>assert N%2 == 0 and N > 4\<close>; Python's \<open>%\<close> is the floored remainder, as \<open>mod\<close> on \<open>int\<close>.\<close>

definition valid_N :: "int \<Rightarrow> bool" where
  "valid_N N = (N mod 2 = 0 \<and> N > 4)"

definition check_N :: "int \<Rightarrow> error + unit" where
  "check_N N = (if valid_N N then Inr () else Inl AssertionError)"

section \<open>Hexagonal mesh: connectivity\<close>

definition hex_poly_tmp :: "int \<Rightarrow> int list list" where
  "hex_poly_tmp N =
     (let ev = every_other (arange 0 (N - 1)) in
      stackT [map (\<lambda>e. 1 + e) ev, map (\<lambda>e. 1 + N + e) ev, map (\<lambda>e. 1 + 2 * N + e) ev,
              map (\<lambda>e. 2 + 2 * N + e) ev, map (\<lambda>e. 2 + N + e) ev, map (\<lambda>e. 2 + e) ev])"

definition hex_polys :: "int \<Rightarrow> int list list" where
  "hex_polys N =
     concat (map (\<lambda>j. shift (2 * j * N) (butlast (hex_poly_tmp N))
                       @ shift ((2 * j + 1) * N - 1) (hex_poly_tmp N))
                 (arange 0 (N div 2 - 1)))"

definition hex_bcs_left :: "int \<Rightarrow> int list" where
  "hex_bcs_left N = map (\<lambda>i. i * N) (arange 0 N)"

definition hex_bcs_right :: "int \<Rightarrow> int list" where
  "hex_bcs_right N = map (\<lambda>i. i * N + N - 1) (arange 0 N)"

definition hex_bcs_bottom :: "int \<Rightarrow> int list" where
  "hex_bcs_bottom N =
     (let a = every_other (arange 1 (N - 1)) in
      butlast ([N + 1] @ concat (stackT [a, map (\<lambda>v. 1 + v) a, map (\<lambda>v. 1 + N + v) a,
                                         map (\<lambda>v. 2 + N + v) a])))"

definition hex_bcs_top :: "int \<Rightarrow> int list" where
  "hex_bcs_top N =
     (let a = every_other (arange 1 (N - 1)) in
      concat (stackT [map (\<lambda>v. N * (N - 1) + v) a, map (\<lambda>v. - N + N * (N - 1) + v) a,
                      map (\<lambda>v. 1 - N + N * (N - 1) + v) a, map (\<lambda>v. 1 + N * (N - 1) + v) a]))"

definition hex_bcs_all :: "int \<Rightarrow> int list" where
  "hex_bcs_all N = hex_bcs_bottom N @ hex_bcs_right N @ rev (hex_bcs_top N) @ rev (hex_bcs_left N)"

definition hex_tmp_r :: "int \<Rightarrow> int list list" where
  "hex_tmp_r N =
     (let ev = every_other (arange 0 (N - 1)) in
      stackT [map (\<lambda>e. 1 + N + e) ev, map (\<lambda>e. 1 + 2 * N + e) ev,
              map (\<lambda>e. 2 + 2 * N + e) ev, map (\<lambda>e. 3 * N + 1 + e) ev])"

definition hex_stencil_r :: "int \<Rightarrow> int list list" where
  "hex_stencil_r N =
     concat (map (\<lambda>j. shift (2 * j * N) (butlast (hex_tmp_r N))
                       @ shift ((2 * j + 1) * N - 1) (tl (hex_tmp_r N)))
                 (arange 0 (N div 2 - 2)))"

definition hex_tmp_l :: "int \<Rightarrow> int list list" where
  "hex_tmp_l N =
     (let ev = every_other (arange 0 (N - 1)) in
      stackT [map (\<lambda>e. N + e) ev, map (\<lambda>e. - 1 + 2 * N + e) ev,
              map (\<lambda>e. 2 * N + e) ev, map (\<lambda>e. 3 * N + e) ev])"

definition hex_stencil_l :: "int \<Rightarrow> int list list" where
  "hex_stencil_l N =
     concat (map (\<lambda>j. shift (2 * j * N) (tl (hex_tmp_l N))
                       @ shift ((2 * j + 1) * N - 1) (tl (hex_tmp_l N)))
                 (arange 0 (N div 2 - 2)))"

definition hex_centr :: "int \<Rightarrow> int list" where
  "hex_centr N = column 2 (hex_stencil_r N) @ column 1 (hex_stencil_l N)"

section \<open>Rectangular mesh: connectivity\<close>

definition rect_centr :: "int \<Rightarrow> int list" where
  "rect_centr N = concat (meshgrid (\<lambda>idx jdx. jdx * N + idx) (arange 1 (N - 1)) (arange 1 (N - 1)))"

definition rect_stencil :: "int \<Rightarrow> int list list" where
  "rect_stencil N = map (\<lambda>c. [c - N, c - 1, c, c + 1, c + N]) (rect_centr N)"

definition rect_bcs_left :: "int \<Rightarrow> int list" where
  "rect_bcs_left N = map (\<lambda>i. i * N) (arange 1 (N - 1))"

definition rect_bcs_right :: "int \<Rightarrow> int list" where
  "rect_bcs_right N = map (\<lambda>i. i * N + N - 1) (arange 1 (N - 1))"

definition rect_bcs_bottom :: "int \<Rightarrow> int list" where
  "rect_bcs_bottom N = arange 0 N"

definition rect_bcs_top :: "int \<Rightarrow> int list" where
  "rect_bcs_top N = map (\<lambda>i. (N - 1) * N + i) (arange 0 N)"

definition rect_bcs_all :: "int \<Rightarrow> int list" where
  "rect_bcs_all N =
     rect_bcs_bottom N @ rect_bcs_right N @ rev (rect_bcs_top N) @ rev (rect_bcs_left N)"

text \<open>
  \<^verbatim>\<open>np.vstack(np.array((A, B, C, D)).T)\<close> for \<open>(N-1) \<times> (N-1)\<close> arrays indexed \<open>[j][i]\<close>: the
  transpose has axes \<open>[i][j][p]\<close>, so the rows come with \<open>i\<close> outermost.
\<close>

definition rect_polys :: "int \<Rightarrow> int list list" where
  "rect_polys N =
     concat (meshgrid (\<lambda>jdx idx. [jdx * N + idx, jdx * N + idx + 1,
                                    (jdx + 1) * N + idx + 1, (jdx + 1) * N + idx])
                      (arange 0 (N - 1)) (arange 0 (N - 1)))"

section \<open>Hexagonal mesh: coordinates\<close>

definition hhat :: "int \<Rightarrow> real" where
  "hhat N = 1 / real_of_int N"

definition off_x :: "int \<Rightarrow> real" where
  "off_x N = (1 / 2) * hhat N"

definition short_x :: "int \<Rightarrow> real" where
  "short_x N = hhat N"

definition long_x :: "int \<Rightarrow> real" where
  "long_x N = 2 * hhat N"

definition off_y :: "int \<Rightarrow> real" where
  "off_y N = hhat N * sqrt 3 / 2"

definition initoff :: "int \<Rightarrow> int list" where
  "initoff N = map (\<lambda>jdx. if jdx mod 2 = 1 then 1 else 0) (arange 0 N)"

definition shortoff :: "int \<Rightarrow> int list list" where
  "shortoff N =
     meshgrid (\<lambda>idx jdx. if (idx + 1) mod 2 = jdx mod 2 then 1 else 0) (arange 0 (N - 1)) (arange 0 N)"

text \<open>The spacings \<^verbatim>\<open>short_x * shortoff + long_x * (1-shortoff)\<close>, an \<open>N \<times> (N-1)\<close> array.\<close>

definition hex_dx :: "int \<Rightarrow> real list list" where
  "hex_dx N =
     map (map (\<lambda>s. short_x N * real_of_int s + long_x N * real_of_int (1 - s))) (shortoff N)"

text \<open>\<^verbatim>\<open>cumsum\<close> along a row: the running sums.\<close>

fun cumsum_from :: "real \<Rightarrow> real list \<Rightarrow> real list" where
  "cumsum_from acc [] = []"
| "cumsum_from acc (x # xs) = (acc + x) # cumsum_from (acc + x) xs"

definition cumsum :: "real list \<Rightarrow> real list" where
  "cumsum xs = cumsum_from 0 xs"

text \<open>
  \<^verbatim>\<open>np.hstack((initoff*off_x, hex_x)).cumsum(axis=1)\<close>: every row of spacings gets the
  row's initial offset in front, and is summed up from the left.
\<close>

definition hex_x_grid :: "int \<Rightarrow> real list list" where
  "hex_x_grid N =
     map cumsum (map2 (\<lambda>i row. (real_of_int i * off_x N) # row) (initoff N) (hex_dx N))"

definition hex_y_grid :: "int \<Rightarrow> real list list" where
  "hex_y_grid N = meshgrid (\<lambda>idx jdx. off_y N * real_of_int jdx) (arange 0 N) (arange 0 N)"

text \<open>\<^verbatim>\<open>v / v.max()\<close> on the flattened array.\<close>

definition normalize :: "real list \<Rightarrow> real list" where
  "normalize xs = map (\<lambda>v. v / Max (set xs)) xs"

definition hex_x :: "int \<Rightarrow> real list" where
  "hex_x N = normalize (concat (hex_x_grid N))"

definition hex_y :: "int \<Rightarrow> real list" where
  "hex_y N = normalize (concat (hex_y_grid N))"

section \<open>Rectangular mesh: coordinates\<close>

text \<open>\<^verbatim>\<open>np.linspace(0, 1, n)\<close>: \<open>n\<close> points with step \<open>1 / (n - 1)\<close>.\<close>

definition linspace :: "int \<Rightarrow> real list" where
  "linspace n = map (\<lambda>i. real_of_int i * (1 / real_of_int (n - 1))) (arange 0 n)"

definition rect_x :: "int \<Rightarrow> real list" where
  "rect_x N = concat (meshgrid (\<lambda>x y. x) (linspace N) (linspace N))"

definition rect_y :: "int \<Rightarrow> real list" where
  "rect_y N = concat (meshgrid (\<lambda>x y. y) (linspace N) (linspace N))"

text \<open>A coordinate inside the unit interval.\<close>

definition unit_interval :: "real \<Rightarrow> bool" where
  "unit_interval v = (0 \<le> v \<and> v \<le> 1)"

section \<open>Operator assembly\<close>

text \<open>
  A sparse matrix is modelled by its list of stored triplets (row, column, value), as it
  is handed to \<^verbatim>\<open>scipy.sparse.csr_matrix((data, (rows, cols)), shape)\<close>. The matrix entry at
  a position is the sum of the values stored there (scipy adds up duplicates), and the sum
  of two matrices stores the triplets of both.
\<close>

type_synonym coo = "(int \<times> int \<times> real) list"

definition csr_matrix :: "real list \<Rightarrow> int list \<Rightarrow> int list \<Rightarrow> coo" where
  "csr_matrix elmt rows cols = zip rows (zip cols elmt)"

definition entry :: "coo \<Rightarrow> int \<Rightarrow> int \<Rightarrow> real" where
  "entry M r c = sum_list (map (\<lambda>(r', c', v). if r' = r \<and> c' = c then v else 0) M)"

definition mat_vec :: "coo \<Rightarrow> real list \<Rightarrow> int \<Rightarrow> real list" where
  "mat_vec M u n =
     map (\<lambda>r. sum_list (map (\<lambda>(r', c, v). if r' = r then v * u ! nat c else 0) M)) (arange 0 n)"

text \<open>\<^verbatim>\<open>np.repeat(v, n)\<close> and \<^verbatim>\<open>np.tile(v, n)\<close>.\<close>

definition repeat :: "'a list \<Rightarrow> nat \<Rightarrow> 'a list" where
  "repeat v n = concat (map (replicate n) v)"

definition tile :: "'a list \<Rightarrow> nat \<Rightarrow> 'a list" where
  "tile v n = concat (replicate n v)"

text \<open>
  The fancy-index assignment \<^verbatim>\<open>b[rows] = vals\<close> and read \<^verbatim>\<open>v[idxs]\<close>. numpy raises
  \<^verbatim>\<open>IndexError\<close> for an index at or above the length of the vector and counts a negative
  index from the end; the functions below are the behaviour for indices from 0 up to the
  length, which is where all indices of a valid \<open>N\<close> lie, as is proved below. Outside
  that range \<open>assign_rows\<close> leaves the vector as it is.
\<close>

definition assign_rows :: "real list \<Rightarrow> int list \<Rightarrow> real list \<Rightarrow> real list" where
  "assign_rows b rows vals = fold (\<lambda>(r, v) b'. b'[nat r := v]) (zip rows vals) b"

definition gather :: "real list \<Rightarrow> int list \<Rightarrow> real list" where
  "gather v idxs = map (\<lambda>i. v ! nat i) idxs"

definition N2 :: "int \<Rightarrow> int" where
  "N2 N = N * N"

text \<open>An index that may be used on a vector of \<open>N * N\<close> entries.\<close>

definition index_ok :: "int \<Rightarrow> int \<Rightarrow> bool" where
  "index_ok N i = (0 \<le> i \<and> i < N2 N)"

definition h :: "int \<Rightarrow> real" where
  "h N = 1 / real_of_int N"

text \<open>
  The test problem of the notebook (its \<open>example 2\<close>). The assembly and the time step below
  take the oracle as a parameter \<open>f\<close>, and the diffusion coefficient \<open>mu\<close> and the time step
  \<open>dt\<close> as parameters; the notebook sets \<open>dt = 5e-2\<close> and \<open>mu = 1e-2\<close>.
\<close>

definition exact_u :: "real \<Rightarrow> real \<Rightarrow> real \<Rightarrow> real \<Rightarrow> real" where
  "exact_u mu t x y = cos (pi * 2 * x) * cos (pi * 2 * y) * exp (- 8 * mu * t * pi ^ 2)"

subsection \<open>Dirichlet rows\<close>

definition rect_rows_bc :: "int \<Rightarrow> int list" where
  "rect_rows_bc N = arange 0 (int (length (rect_bcs_all N)))"

definition rect_I_bc :: "int \<Rightarrow> coo" where
  "rect_I_bc N =
     csr_matrix (map (\<lambda>r. real_of_int (1 + 0 * r)) (rect_rows_bc N)) (rect_rows_bc N) (rect_bcs_all N)"

definition hex_rows_bc :: "int \<Rightarrow> int list" where
  "hex_rows_bc N = arange 0 (int (length (hex_bcs_all N)))"

definition hex_I_bc :: "int \<Rightarrow> coo" where
  "hex_I_bc N =
     csr_matrix (map (\<lambda>r. real_of_int (1 + 0 * r)) (hex_rows_bc N)) (hex_rows_bc N) (hex_bcs_all N)"

subsection \<open>Effective mass and stiffness rows\<close>

definition rect_rows_bulk_start_idx :: "int \<Rightarrow> int" where
  "rect_rows_bulk_start_idx N = 1 + last (rect_rows_bc N)"

definition rect_rows :: "int \<Rightarrow> int list" where
  "rect_rows N =
     map (\<lambda>v. rect_rows_bulk_start_idx N + v) (repeat (arange 0 (int (length (rect_centr N)))) 5)"

definition rect_cols :: "int \<Rightarrow> int list" where
  "rect_cols N = concat (rect_stencil N)"

definition rect_elmt :: "real \<Rightarrow> real \<Rightarrow> int \<Rightarrow> real list" where
  "rect_elmt mu dt N =
     tile [mu / (h N)\<^sup>2, mu / (h N)\<^sup>2, - 1 / dt - mu * 4 / (h N)\<^sup>2, mu / (h N)\<^sup>2, mu / (h N)\<^sup>2]
          (nat ((N - 2) * (N - 2)))"

definition rect_A :: "real \<Rightarrow> real \<Rightarrow> int \<Rightarrow> coo" where
  "rect_A mu dt N = csr_matrix (rect_elmt mu dt N) (rect_rows N) (rect_cols N)"

definition hex_rows_bulk_start_idx :: "int \<Rightarrow> int" where
  "hex_rows_bulk_start_idx N = 1 + last (hex_rows_bc N)"

definition hex_rows_r :: "int \<Rightarrow> int list" where
  "hex_rows_r N =
     map (\<lambda>v. hex_rows_bulk_start_idx N + v) (repeat (arange 0 (int (length (hex_stencil_r N)))) 4)"

definition hex_cols_r :: "int \<Rightarrow> int list" where
  "hex_cols_r N = concat (hex_stencil_r N)"

definition hex_elmt_r :: "real \<Rightarrow> real \<Rightarrow> int \<Rightarrow> real list" where
  "hex_elmt_r mu dt N =
     tile [mu * 4 / (3 * (h N)\<^sup>2), - mu * 4 / (h N)\<^sup>2 - 1 / dt, mu * 4 / (3 * (h N)\<^sup>2),
           mu * 4 / (3 * (h N)\<^sup>2)]
          (length (hex_stencil_r N))"

definition hex_A_r :: "real \<Rightarrow> real \<Rightarrow> int \<Rightarrow> coo" where
  "hex_A_r mu dt N = csr_matrix (hex_elmt_r mu dt N) (hex_rows_r N) (hex_cols_r N)"

definition hex_rows_l :: "int \<Rightarrow> int list" where
  "hex_rows_l N =
     map (\<lambda>v. 1 + last (hex_rows_r N) + v) (repeat (arange 0 (int (length (hex_stencil_l N)))) 4)"

definition hex_cols_l :: "int \<Rightarrow> int list" where
  "hex_cols_l N = concat (hex_stencil_l N)"

definition hex_elmt_l :: "real \<Rightarrow> real \<Rightarrow> int \<Rightarrow> real list" where
  "hex_elmt_l mu dt N =
     tile [mu * 4 / (3 * (h N)\<^sup>2), mu * 4 / (3 * (h N)\<^sup>2), - mu * 4 / (h N)\<^sup>2 - 1 / dt,
           mu * 4 / (3 * (h N)\<^sup>2)]
          (length (hex_stencil_l N))"

definition hex_A_l :: "real \<Rightarrow> real \<Rightarrow> int \<Rightarrow> coo" where
  "hex_A_l mu dt N = csr_matrix (hex_elmt_l mu dt N) (hex_rows_l N) (hex_cols_l N)"

subsection \<open>Right-hand sides and the full systems\<close>

definition rect_rhs0 :: "(real \<Rightarrow> real \<Rightarrow> real \<Rightarrow> real) \<Rightarrow> int \<Rightarrow> real list" where
  "rect_rhs0 f N =
     assign_rows (replicate (nat (N2 N)) 0) (arange 0 (int (length (rect_bcs_all N))))
       (map2 (f 0) (gather (rect_x N) (rect_bcs_all N)) (gather (rect_y N) (rect_bcs_all N)))"

definition rect_bulk_rhs_rows :: "int \<Rightarrow> int list" where
  "rect_bulk_rhs_rows N =
     map (\<lambda>v. rect_rows_bulk_start_idx N + v) (arange 0 (int (length (rect_centr N))))"

definition hex_rhs0 :: "(real \<Rightarrow> real \<Rightarrow> real \<Rightarrow> real) \<Rightarrow> int \<Rightarrow> real list" where
  "hex_rhs0 f N =
     assign_rows (replicate (nat (N2 N)) 0) (arange 0 (int (length (hex_bcs_all N))))
       (map2 (f 0) (gather (hex_x N) (hex_bcs_all N)) (gather (hex_y N) (hex_bcs_all N)))"

definition hex_bulk_rhs_rows :: "int \<Rightarrow> int list" where
  "hex_bulk_rhs_rows N =
     map (\<lambda>v. hex_rows_bulk_start_idx N + v) (arange 0 (int (length (hex_centr N))))"

definition rect_M :: "real \<Rightarrow> real \<Rightarrow> int \<Rightarrow> coo" where
  "rect_M mu dt N = rect_I_bc N @ rect_A mu dt N"

definition hex_M :: "real \<Rightarrow> real \<Rightarrow> int \<Rightarrow> coo" where
  "hex_M mu dt N = hex_I_bc N @ hex_A_r mu dt N @ hex_A_l mu dt N"

section \<open>The time step\<close>

text \<open>
  The state that \<^verbatim>\<open>drawstep\<close> reads and writes through its \<^verbatim>\<open>global\<close> declarations. The
  drawing calls of \<^verbatim>\<open>drawstep\<close> do not change it and are left out.
\<close>

record sim_state =
  rect_u :: "real list"
  hex_u :: "real list"
  rect_rhs :: "real list"
  hex_rhs :: "real list"
  time :: real

definition step_rect_rhs :: "(real \<Rightarrow> real \<Rightarrow> real \<Rightarrow> real) \<Rightarrow> real \<Rightarrow> int \<Rightarrow> sim_state \<Rightarrow> real list" where
  "step_rect_rhs f dt N s =
     assign_rows
       (assign_rows (rect_rhs s) (arange 0 (int (length (rect_bcs_all N))))
          (map2 (f (time s)) (gather (rect_x N) (rect_bcs_all N)) (gather (rect_y N) (rect_bcs_all N))))
       (rect_bulk_rhs_rows N)
       (map (\<lambda>v. - v / dt) (gather (rect_u s) (rect_centr N)))"

definition step_hex_rhs :: "(real \<Rightarrow> real \<Rightarrow> real \<Rightarrow> real) \<Rightarrow> real \<Rightarrow> int \<Rightarrow> sim_state \<Rightarrow> real list" where
  "step_hex_rhs f dt N s =
     assign_rows
       (assign_rows (hex_rhs s) (arange 0 (int (length (hex_bcs_all N))))
          (map2 (f (time s)) (gather (hex_x N) (hex_bcs_all N)) (gather (hex_y N) (hex_bcs_all N))))
       (hex_bulk_rhs_rows N)
       (map (\<lambda>v. - v / dt) (gather (hex_u s) (hex_centr N)))"

text \<open>
  \<^verbatim>\<open>scipy.sparse.linalg.spsolve(M, b)\<close> is a library routine. It is characterised by what it
  returns in exact arithmetic: a vector \<open>u\<close> with one entry per row of \<open>b\<close> and \<open>M u = b\<close>.
\<close>

definition spsolve :: "coo \<Rightarrow> real list \<Rightarrow> int \<Rightarrow> real list \<Rightarrow> bool" where
  "spsolve M b n u = (length u = nat n \<and> mat_vec M u n = b)"

text \<open>The step of \<^verbatim>\<open>drawstep\<close>: from the state \<open>s\<close> before the call to the state \<open>s'\<close> after it.\<close>

definition drawstep ::
  "(real \<Rightarrow> real \<Rightarrow> real \<Rightarrow> real) \<Rightarrow> real \<Rightarrow> real \<Rightarrow> int \<Rightarrow> sim_state \<Rightarrow> sim_state \<Rightarrow> bool" where
  "drawstep f mu dt N s s' =
     (rect_rhs s' = step_rect_rhs f dt N s \<and>
      hex_rhs s' = step_hex_rhs f dt N s \<and>
      spsolve (rect_M mu dt N) (rect_rhs s') (N2 N) (rect_u s') \<and>
      spsolve (hex_M mu dt N) (hex_rhs s') (N2 N) (hex_u s') \<and>
      time s' = time s + dt)"

subsection \<open>An example step\<close>

text \<open>
  The vectorised call \<^verbatim>\<open>exact_u(time, x, y)\<close> on the coordinate vectors of a mesh, as the
  notebook uses it to initialise \<^verbatim>\<open>rect_u\<close> and \<^verbatim>\<open>hex_u\<close>.
\<close>

definition node_values :: "(real \<Rightarrow> real \<Rightarrow> real \<Rightarrow> real) \<Rightarrow> real \<Rightarrow> real list \<Rightarrow> real list \<Rightarrow> real list" where
  "node_values f t xs ys = map2 (f t) xs ys"

text \<open>
  A solution vector from which one step returns a given vector \<open>target\<close>: at the center of
  stencil row \<open>k\<close> it holds \<open>- dt\<close> times row \<open>k\<close> of \<open>M\<close> applied to \<open>target\<close>. It is not part
  of the notebook; the example states below are built with it.
\<close>

definition preimage_u :: "coo \<Rightarrow> real list \<Rightarrow> int list \<Rightarrow> int list \<Rightarrow> real \<Rightarrow> int \<Rightarrow> real list" where
  "preimage_u M target bulk_rows centr dt n =
     assign_rows (replicate (nat n) 0) centr (map (\<lambda>v. - dt * v) (gather (mat_vec M target n) bulk_rows))"

text \<open>The notebook's parameters \<^verbatim>\<open>mu = 1e-2\<close> and \<^verbatim>\<open>dt = 5e-2\<close>.\<close>

definition mu0 :: real where
  "mu0 = 1 / 100"

definition dt0 :: real where
  "dt0 = 5 / 100"

text \<open>
  Two states at \<open>N = 6\<close> with the notebook's oracle and parameters: the state after the step
  holds the oracle's field of time 0 on both meshes, the state before the step is at time 0.
\<close>

definition example_pre :: sim_state where
  "example_pre =
     \<lparr> rect_u = preimage_u (rect_M mu0 dt0 6) (node_values (exact_u mu0) 0 (rect_x 6) (rect_y 6))
                  (rect_bulk_rhs_rows 6) (rect_centr 6) dt0 (N2 6),
       hex_u = preimage_u (hex_M mu0 dt0 6) (node_values (exact_u mu0) 0 (hex_x 6) (hex_y 6))
                  (hex_bulk_rhs_rows 6) (hex_centr 6) dt0 (N2 6),
       rect_rhs = rect_rhs0 (exact_u mu0) 6,
       hex_rhs = hex_rhs0 (exact_u mu0) 6,
       time = 0 \<rparr>"

definition example_post :: sim_state where
  "example_post =
     \<lparr> rect_u = node_values (exact_u mu0) 0 (rect_x 6) (rect_y 6),
       hex_u = node_values (exact_u mu0) 0 (hex_x 6) (hex_y 6),
       rect_rhs = step_rect_rhs (exact_u mu0) dt0 6 example_pre,
       hex_rhs = step_hex_rhs (exact_u mu0) dt0 6 example_pre,
       time = 0 + dt0 \<rparr>"

section \<open>The notebook from its first cell\<close>

text \<open>
  The cells run in order: the assertion on \<open>N\<close> comes first, the mesh cells after it. A
  failed assertion stops the run, so none of the later cells is evaluated.
\<close>

record mesh =
  m_hex_x :: "real list"
  m_hex_y :: "real list"
  m_hex_polys :: "int list list"
  m_hex_bcs_all :: "int list"
  m_hex_stencil_r :: "int list list"
  m_hex_stencil_l :: "int list list"
  m_hex_centr :: "int list"
  m_rect_x :: "real list"
  m_rect_y :: "real list"
  m_rect_stencil :: "int list list"
  m_rect_centr :: "int list"
  m_rect_bcs_all :: "int list"
  m_rect_polys :: "int list list"

definition build_mesh :: "int \<Rightarrow> mesh" where
  "build_mesh N =
     \<lparr> m_hex_x = hex_x N, m_hex_y = hex_y N, m_hex_polys = hex_polys N,
       m_hex_bcs_all = hex_bcs_all N, m_hex_stencil_r = hex_stencil_r N,
       m_hex_stencil_l = hex_stencil_l N, m_hex_centr = hex_centr N,
       m_rect_x = rect_x N, m_rect_y = rect_y N, m_rect_stencil = rect_stencil N,
       m_rect_centr = rect_centr N, m_rect_bcs_all = rect_bcs_all N,
       m_rect_polys = rect_polys N \<rparr>"

definition notebook :: "int \<Rightarrow> error + mesh" where
  "notebook N = (case check_N N of Inl e \<Rightarrow> Inl e | Inr _ \<Rightarrow> Inr (build_mesh N))"

section \<open>Configuration check\<close>

text \<open>
  C9. \<open>N = 6\<close> passes the assertion and the meshes are built; \<open>N = 5\<close> and \<open>N = 4\<close>, and
  every odd \<open>N\<close> and every \<open>N \<le> 4\<close>, fail the assertion, and the run ends with the error
  before any mesh is built.
\<close>

theorem notebook_configuration:
  "notebook 6 = Inr (build_mesh 6) \<and> notebook 5 = Inl AssertionError
   \<and> notebook 4 = Inl AssertionError
   \<and> (\<forall>N. N mod 2 = 1 \<or> N \<le> 4 \<longrightarrow> notebook N = Inl AssertionError)"
  by (auto simp: notebook_def check_N_def valid_N_def)

theorem notebook_configuration_witness:
  "(3::int) mod 2 = 1 \<and> notebook 3 = Inl AssertionError \<and> notebook 6 = Inr (build_mesh 6)"
  using notebook_configuration by simp

section \<open>Stencil counts on the hexagonal mesh\<close>

text \<open>
  C2, as stated, at \<open>N = 8\<close>: the two families have \<open>(N/2 - 2) * (N - 1) = 14\<close> rows each.
  The construction gives 12 rows, so the statement fails.
\<close>

theorem hex_stencil_count_8_counterexample:
  "\<not> (length (hex_stencil_r 8) = length (hex_stencil_l 8)
      \<and> int (length (hex_stencil_r 8)) = (8 div 2 - 2) * (8 - 1)
      \<and> card (set (column 2 (hex_stencil_r 8)) \<union> set (column 1 (hex_stencil_l 8)))
          + length (hex_bcs_all 8) = 64)"
  by code_simp

text \<open>
  C2, amended: at \<open>N = 8\<close> both families have \<open>(N/2 - 2) * (N - 2) = 12\<close> rows, and the
  number of distinct stencil centers of the two families plus the length of the boundary
  list is 64.
\<close>

theorem hex_stencil_count_8:
  "length (hex_stencil_r 8) = length (hex_stencil_l 8)
   \<and> int (length (hex_stencil_r 8)) = (8 div 2 - 2) * (8 - 2)
   \<and> card (set (column 2 (hex_stencil_r 8)) \<union> set (column 1 (hex_stencil_l 8)))
       + length (hex_bcs_all 8) = 64"
  by code_simp

section \<open>Boundary nodes and stencil centers\<close>

text \<open>
  C1 at \<open>N = 6\<close> on the hexagonal mesh. The center list \<^verbatim>\<open>hex_centr\<close> takes column 2 of the
  right family and column 1 of the left family. Nodes 18 and 23 are then both boundary
  nodes and centers, and nodes 19 and 22 are in neither list. The columns that carry the
  diagonal coefficient (column 1 of the right family, column 2 of the left family)
  together with the boundary list do hold every node exactly once.
\<close>

theorem hex_centr_overlaps_boundary_6:
  "23 \<in> set (hex_bcs_all 6) \<and> 23 \<in> set (hex_centr 6)
   \<and> 18 \<in> set (hex_bcs_all 6) \<and> 18 \<in> set (hex_centr 6)
   \<and> 19 \<notin> set (hex_bcs_all 6) \<union> set (hex_centr 6)
   \<and> 22 \<notin> set (hex_bcs_all 6) \<union> set (hex_centr 6)
   \<and> sort (hex_bcs_all 6 @ hex_centr 6) \<noteq> [0..35]
   \<and> sort (hex_bcs_all 6 @ column 1 (hex_stencil_r 6) @ column 2 (hex_stencil_l 6)) = [0..35]"
  by code_simp

section \<open>Index lists in closed form\<close>

lemma set_arange: "set (arange a b) = {a..<b}"
  by (auto simp: arange_def)

lemma length_arange: "length (arange a b) = nat (b - a)"
  by (simp add: arange_def)

lemma set_every_other: "set (every_other xs) \<subseteq> set xs"
  by (induction xs rule: every_other.induct) auto

lemma stackT_maps:
  assumes "fs \<noteq> []"
  shows "stackT (map (\<lambda>f. map f xs) fs) = map (\<lambda>x. map (\<lambda>f. f x) fs) xs"
proof -
  have "hd (map (\<lambda>f. map f xs) fs) = map (hd fs) xs"
    using assms by (cases fs) simp_all
  then have "stackT (map (\<lambda>f. map f xs) fs)
      = map (\<lambda>m. map (\<lambda>f. f (xs ! m)) fs) [0..<length xs]"
    by (simp add: stackT_def comp_def)
  also have "\<dots> = map ((\<lambda>x. map (\<lambda>f. f x) fs) \<circ> (\<lambda>m. xs ! m)) [0..<length xs]"
    by (simp add: comp_def)
  also have "\<dots> = map (\<lambda>x. map (\<lambda>f. f x) fs) xs"
    unfolding map_map [symmetric] map_nth ..
  finally show ?thesis .
qed

lemma stackT4:
  "stackT [map f1 xs, map f2 xs, map f3 xs, map f4 xs] = map (\<lambda>x. [f1 x, f2 x, f3 x, f4 x]) xs"
  using stackT_maps [of "[f1, f2, f3, f4]" xs] by simp

lemma stackT6:
  "stackT [map f1 xs, map f2 xs, map f3 xs, map f4 xs, map f5 xs, map f6 xs]
     = map (\<lambda>x. [f1 x, f2 x, f3 x, f4 x, f5 x, f6 x]) xs"
  using stackT_maps [of "[f1, f2, f3, f4, f5, f6]" xs] by simp

lemma hex_tmp_r_eq:
  "hex_tmp_r N = map (\<lambda>e. [1 + N + e, 1 + 2 * N + e, 2 + 2 * N + e, 3 * N + 1 + e])
                     (every_other (arange 0 (N - 1)))"
  by (simp add: hex_tmp_r_def Let_def stackT4)

lemma hex_tmp_l_eq:
  "hex_tmp_l N = map (\<lambda>e. [N + e, - 1 + 2 * N + e, 2 * N + e, 3 * N + e])
                     (every_other (arange 0 (N - 1)))"
  by (simp add: hex_tmp_l_def Let_def stackT4)

lemma hex_poly_tmp_eq:
  "hex_poly_tmp N = map (\<lambda>e. [1 + e, 1 + N + e, 1 + 2 * N + e, 2 + 2 * N + e, 2 + N + e, 2 + e])
                     (every_other (arange 0 (N - 1)))"
  by (simp add: hex_poly_tmp_def Let_def stackT6)

lemma hex_bcs_bottom_eq:
  "hex_bcs_bottom N =
     butlast ((N + 1) # concat (map (\<lambda>v. [v, 1 + v, 1 + N + v, 2 + N + v])
                                    (every_other (arange 1 (N - 1)))))"
  using stackT4 [of "\<lambda>v. v" "every_other (arange 1 (N - 1))"]
  by (simp add: hex_bcs_bottom_def Let_def)

lemma hex_bcs_top_eq:
  "hex_bcs_top N =
     concat (map (\<lambda>v. [N * (N - 1) + v, - N + N * (N - 1) + v, 1 - N + N * (N - 1) + v,
                        1 + N * (N - 1) + v])
                 (every_other (arange 1 (N - 1))))"
  by (simp add: hex_bcs_top_def Let_def stackT4)

lemma even_shift_bound:
  assumes "valid_N N" "0 \<le> j" "j < N div 2 - 1"
  shows "0 \<le> j * N" "2 * (j * N) \<le> N * N - 4 * N"
proof -
  from assms have N: "N \<ge> 6" "N mod 2 = 0" by (auto simp: valid_N_def)
  show "0 \<le> j * N" using assms N by simp
  have "j \<le> N div 2 - 2" using assms by simp
  then have le: "j * N \<le> (N div 2 - 2) * N" using N by (intro mult_right_mono) auto
  have e: "2 * (N div 2 - 2) = N - 4" using N by presburger
  have "2 * (j * N) \<le> 2 * ((N div 2 - 2) * N)" using le by simp
  also have "\<dots> = (2 * (N div 2 - 2)) * N" by simp
  also have "\<dots> = (N - 4) * N" unfolding e ..
  also have "\<dots> = N * N - 4 * N" by (simp add: algebra_simps)
  finally show "2 * (j * N) \<le> N * N - 4 * N" .
qed


lemma ev_bounds: "e \<in> set (every_other (arange a b)) \<Longrightarrow> a \<le> e \<and> e < b"
  using set_every_other [of "arange a b"] by (auto simp: set_arange)

lemma in_set_tl: "x \<in> set (tl xs) \<Longrightarrow> x \<in> set xs"
  by (cases xs) auto

lemma odd_shift_bound:
  assumes "valid_N N" "0 \<le> j" "j < N div 2 - 2"
  shows "0 \<le> j * N" "2 * (j * N) \<le> N * N - 6 * N"
proof -
  from assms(1) have N: "N \<ge> 6" by (auto simp: valid_N_def)
  from assms have "0 \<le> j + 1" "j + 1 < N div 2 - 1" by auto
  from even_shift_bound(2) [OF assms(1) this]
  show "2 * (j * N) \<le> N * N - 6 * N" by (simp add: algebra_simps)
  show "0 \<le> j * N" using assms(2) N by simp
qed

lemma hex_stencil_r_bounds:
  assumes "valid_N N" "row \<in> set (hex_stencil_r N)" "i \<in> set row"
  shows "0 \<le> i \<and> i < N * N"
proof -
  from assms(1) have N: "N \<ge> 6" by (auto simp: valid_N_def)
  from assms(2) obtain j e where j: "0 \<le> j" "j < N div 2 - 2"
    and e: "e \<in> set (every_other (arange 0 (N - 1)))"
    and row: "row = map (\<lambda>v. v + 2 * j * N) [1 + N + e, 1 + 2 * N + e, 2 + 2 * N + e, 3 * N + 1 + e]
            \<or> row = map (\<lambda>v. v + ((2 * j + 1) * N - 1)) [1 + N + e, 1 + 2 * N + e, 2 + 2 * N + e, 3 * N + 1 + e]"
    by (auto simp: hex_stencil_r_def hex_tmp_r_eq shift_def set_arange
             dest!: in_set_butlastD in_set_tl)
  from ev_bounds [OF e] have eb: "0 \<le> e" "e < N - 1" by auto
  define P S where "P = j * N" and "S = N * N"
  from odd_shift_bound [OF assms(1) j] have b: "0 \<le> P" "2 * P \<le> S - 6 * N"
    by (simp_all add: P_def S_def)
  from row have "row = map (\<lambda>v. v + 2 * P) [1 + N + e, 1 + 2 * N + e, 2 + 2 * N + e, 3 * N + 1 + e]
            \<or> row = map (\<lambda>v. v + (2 * P + N - 1)) [1 + N + e, 1 + 2 * N + e, 2 + 2 * N + e, 3 * N + 1 + e]"
    by (simp add: P_def algebra_simps)
  with assms(3) b eb N have "0 \<le> i \<and> i < S" by auto
  then show ?thesis by (simp add: S_def)
qed

lemma hex_stencil_l_bounds:
  assumes "valid_N N" "row \<in> set (hex_stencil_l N)" "i \<in> set row"
  shows "0 \<le> i \<and> i < N * N"
proof -
  from assms(1) have N: "N \<ge> 6" by (auto simp: valid_N_def)
  from assms(2) obtain j e where j: "0 \<le> j" "j < N div 2 - 2"
    and e: "e \<in> set (every_other (arange 0 (N - 1)))"
    and row: "row = map (\<lambda>v. v + 2 * j * N) [N + e, - 1 + 2 * N + e, 2 * N + e, 3 * N + e]
            \<or> row = map (\<lambda>v. v + ((2 * j + 1) * N - 1)) [N + e, - 1 + 2 * N + e, 2 * N + e, 3 * N + e]"
    by (auto simp: hex_stencil_l_def hex_tmp_l_eq shift_def set_arange
             dest!: in_set_butlastD in_set_tl)
  from ev_bounds [OF e] have eb: "0 \<le> e" "e < N - 1" by auto
  define P S where "P = j * N" and "S = N * N"
  from odd_shift_bound [OF assms(1) j] have b: "0 \<le> P" "2 * P \<le> S - 6 * N"
    by (simp_all add: P_def S_def)
  from row have "row = map (\<lambda>v. v + 2 * P) [N + e, - 1 + 2 * N + e, 2 * N + e, 3 * N + e]
            \<or> row = map (\<lambda>v. v + (2 * P + N - 1)) [N + e, - 1 + 2 * N + e, 2 * N + e, 3 * N + e]"
    by (simp add: P_def algebra_simps)
  with assms(3) b eb N have "0 \<le> i \<and> i < S" by auto
  then show ?thesis by (simp add: S_def)
qed

lemma hex_polys_bounds:
  assumes "valid_N N" "row \<in> set (hex_polys N)" "i \<in> set row"
  shows "0 \<le> i \<and> i < N * N"
proof -
  from assms(1) have N: "N \<ge> 6" by (auto simp: valid_N_def)
  from assms(2) obtain j e where j: "0 \<le> j" "j < N div 2 - 1"
    and e: "e \<in> set (every_other (arange 0 (N - 1)))"
    and row: "row = map (\<lambda>v. v + 2 * j * N) [1 + e, 1 + N + e, 1 + 2 * N + e, 2 + 2 * N + e, 2 + N + e, 2 + e]
            \<or> row = map (\<lambda>v. v + ((2 * j + 1) * N - 1)) [1 + e, 1 + N + e, 1 + 2 * N + e, 2 + 2 * N + e, 2 + N + e, 2 + e]"
    by (auto simp: hex_polys_def hex_poly_tmp_eq shift_def set_arange
             dest!: in_set_butlastD in_set_tl)
  from ev_bounds [OF e] have eb: "0 \<le> e" "e < N - 1" by auto
  define P S where "P = j * N" and "S = N * N"
  from even_shift_bound [OF assms(1) j] have b: "0 \<le> P" "2 * P \<le> S - 4 * N"
    by (simp_all add: P_def S_def)
  from row have "row = map (\<lambda>v. v + 2 * P) [1 + e, 1 + N + e, 1 + 2 * N + e, 2 + 2 * N + e, 2 + N + e, 2 + e]
            \<or> row = map (\<lambda>v. v + (2 * P + N - 1)) [1 + e, 1 + N + e, 1 + 2 * N + e, 2 + 2 * N + e, 2 + N + e, 2 + e]"
    by (simp add: P_def algebra_simps)
  with assms(3) b eb N have "0 \<le> i \<and> i < S" by auto
  then show ?thesis by (simp add: S_def)
qed

lemma row_bound:
  fixes i N :: int
  assumes "0 \<le> i" "i < N"
  shows "0 \<le> i * N" "i * N + N \<le> N * N"
proof -
  from assms have N: "0 \<le> N" by simp
  show "0 \<le> i * N" using assms(1) N by (rule mult_nonneg_nonneg)
  have "(i + 1) * N \<le> N * N" using assms N by (intro mult_right_mono) auto
  then show "i * N + N \<le> N * N" by (simp add: algebra_simps)
qed

lemma square_bound:
  assumes "valid_N N"
  shows "6 * N \<le> N * N"
proof -
  from assms have "6 \<le> N" by (auto simp: valid_N_def)
  then show ?thesis by (intro mult_right_mono) auto
qed

lemma hex_bcs_all_bounds:
  assumes "valid_N N" "i \<in> set (hex_bcs_all N)"
  shows "0 \<le> i \<and> i < N * N"
proof -
  from assms(1) have N: "N \<ge> 6" by (auto simp: valid_N_def)
  define S where "S = N * N"
  have NN: "6 * N \<le> S" using square_bound [OF assms(1)] by (simp add: S_def)
  from assms(2) consider
      (bottom) "i \<in> set (hex_bcs_bottom N)" | (right) "i \<in> set (hex_bcs_right N)"
    | (top) "i \<in> set (hex_bcs_top N)" | (left) "i \<in> set (hex_bcs_left N)"
    by (auto simp: hex_bcs_all_def)
  then have "0 \<le> i \<and> i < S"
  proof cases
    case bottom
    then have "i \<in> set ((N + 1) # concat (map (\<lambda>v. [v, 1 + v, 1 + N + v, 2 + N + v])
                                                (every_other (arange 1 (N - 1)))))"
      unfolding hex_bcs_bottom_eq by (rule in_set_butlastD)
    then have "i = N + 1 \<or> (\<exists>v. v \<in> set (every_other (arange 1 (N - 1)))
                                \<and> i \<in> {v, 1 + v, 1 + N + v, 2 + N + v})"
      by auto
    with NN N show ?thesis by (auto dest!: ev_bounds)
  next
    case right
    then obtain k where k: "0 \<le> k" "k < N" "i = k * N + N - 1"
      by (auto simp: hex_bcs_right_def set_arange)
    define P where "P = k * N"
    from row_bound [OF k(1,2)] have "0 \<le> P" "P + N \<le> S" by (simp_all add: P_def S_def)
    moreover from k have "i = P + N - 1" by (simp add: P_def)
    ultimately show ?thesis using N by auto
  next
    case top
    then obtain v where v: "v \<in> set (every_other (arange 1 (N - 1)))"
      and i: "i \<in> {N * (N - 1) + v, - N + N * (N - 1) + v, 1 - N + N * (N - 1) + v, 1 + N * (N - 1) + v}"
      by (auto simp: hex_bcs_top_eq)
    have "N * (N - 1) = S - N" by (simp add: algebra_simps S_def)
    with i have "i \<in> {S - N + v, - N + (S - N) + v, 1 - N + (S - N) + v, 1 + (S - N) + v}"
      by simp
    with ev_bounds [OF v] NN N show ?thesis by auto
  next
    case left
    then obtain k where k: "0 \<le> k" "k < N" "i = k * N"
      by (auto simp: hex_bcs_left_def set_arange)
    define P where "P = k * N"
    from row_bound [OF k(1,2)] have "0 \<le> P" "P + N \<le> S" by (simp_all add: P_def S_def)
    moreover from k have "i = P" by (simp add: P_def)
    ultimately show ?thesis using N by auto
  qed
  then show ?thesis by (simp add: S_def)
qed

lemma rect_centr_bounds:
  assumes "valid_N N" "c \<in> set (rect_centr N)"
  shows "N + 1 \<le> c \<and> c + N + 1 < N * N"
proof -
  from assms(1) have N: "N \<ge> 6" by (auto simp: valid_N_def)
  from assms(2) obtain j where ij: "1 \<le> j" "j < N - 1" "1 + j * N \<le> c" "c < N - 1 + j * N"
    by (auto simp: rect_centr_def meshgrid_def set_arange)
  define P S where "P = j * N" and "S = N * N"
  from ij N have "1 * N \<le> j * N" by (intro mult_right_mono) auto
  then have 1: "N \<le> P" by (simp add: P_def)
  from ij N have "(j + 2) * N \<le> N * N" by (intro mult_right_mono) auto
  then have 2: "P + 2 * N \<le> S" by (simp add: algebra_simps P_def S_def)
  from ij have "1 + P \<le> c" "c < N - 1 + P" by (simp_all add: P_def)
  with 1 2 have "N + 1 \<le> c \<and> c + N + 1 < S" by auto
  then show ?thesis by (simp add: S_def)
qed

lemma rect_stencil_bounds:
  assumes "valid_N N" "row \<in> set (rect_stencil N)" "i \<in> set row"
  shows "0 \<le> i \<and> i < N * N"
proof -
  from assms(1) have N: "N \<ge> 6" by (auto simp: valid_N_def)
  define S where "S = N * N"
  from assms(2) obtain c where c: "c \<in> set (rect_centr N)" "row = [c - N, c - 1, c, c + 1, c + N]"
    by (auto simp: rect_stencil_def)
  from rect_centr_bounds [OF assms(1) c(1)] have "N + 1 \<le> c \<and> c + N + 1 < S"
    by (simp add: S_def)
  with c(2) assms(3) N have "0 \<le> i \<and> i < S" by auto
  then show ?thesis by (simp add: S_def)
qed

lemma rect_bcs_all_bounds:
  assumes "valid_N N" "i \<in> set (rect_bcs_all N)"
  shows "0 \<le> i \<and> i < N * N"
proof -
  from assms(1) have N: "N \<ge> 6" by (auto simp: valid_N_def)
  define S where "S = N * N"
  have NN: "6 * N \<le> S" using square_bound [OF assms(1)] by (simp add: S_def)
  from assms(2) consider
      (bottom) "i \<in> set (rect_bcs_bottom N)" | (right) "i \<in> set (rect_bcs_right N)"
    | (top) "i \<in> set (rect_bcs_top N)" | (left) "i \<in> set (rect_bcs_left N)"
    by (auto simp: rect_bcs_all_def)
  then have "0 \<le> i \<and> i < S"
  proof cases
    case bottom
    with NN N show ?thesis by (auto simp: rect_bcs_bottom_def set_arange)
  next
    case right
    then obtain k where k: "0 \<le> k" "k < N" "i = k * N + N - 1"
      by (auto simp: rect_bcs_right_def set_arange)
    define P where "P = k * N"
    from row_bound [OF k(1,2)] have "0 \<le> P" "P + N \<le> S" by (simp_all add: P_def S_def)
    moreover from k have "i = P + N - 1" by (simp add: P_def)
    ultimately show ?thesis using N by auto
  next
    case top
    then have k: "(N - 1) * N \<le> i" "i < N + (N - 1) * N"
      by (auto simp: rect_bcs_top_def set_arange)
    have "(N - 1) * N = S - N" by (simp add: algebra_simps S_def)
    with k NN N show ?thesis by auto
  next
    case left
    then obtain k where k: "0 \<le> k" "k < N" "i = k * N"
      by (auto simp: rect_bcs_left_def set_arange)
    define P where "P = k * N"
    from row_bound [OF k(1,2)] have "0 \<le> P" "P + N \<le> S" by (simp_all add: P_def S_def)
    moreover from k have "i = P" by (simp add: P_def)
    ultimately show ?thesis using N by auto
  qed
  then show ?thesis by (simp add: S_def)
qed

lemma rect_polys_bounds:
  assumes "valid_N N" "row \<in> set (rect_polys N)" "i \<in> set row"
  shows "0 \<le> i \<and> i < N * N"
proof -
  from assms(1) have N: "N \<ge> 6" by (auto simp: valid_N_def)
  from assms(2) obtain a b where ab: "0 \<le> a" "a < N - 1" "0 \<le> b" "b < N - 1"
    and row: "row = [b * N + a, b * N + a + 1, (b + 1) * N + a + 1, (b + 1) * N + a]"
    by (auto simp: rect_polys_def meshgrid_def set_arange)
  define P S where "P = b * N" and "S = N * N"
  from ab N have "0 \<le> b * N" by (intro mult_nonneg_nonneg) auto
  then have 1: "0 \<le> P" by (simp add: P_def)
  from ab N have "(b + 2) * N \<le> N * N" by (intro mult_right_mono) auto
  then have 2: "P + 2 * N \<le> S" by (simp add: algebra_simps P_def S_def)
  from row have "row = [P + a, P + a + 1, P + N + a + 1, P + N + a]"
    by (simp add: P_def algebra_simps)
  with assms(3) 1 2 ab have "0 \<le> i \<and> i < S" by auto
  then show ?thesis by (simp add: S_def)
qed

section \<open>Every stored index is a node index\<close>


lemma length_concat_uniform:
  "\<forall>r \<in> set xss. length r = m \<Longrightarrow> length (concat xss) = length xss * m"
  by (induction xss) auto

lemma length_cumsum_from: "length (cumsum_from a xs) = length xs"
  by (induction xs arbitrary: a) auto

lemma length_meshgrid_concat:
  "length (concat (meshgrid f xs ys)) = length ys * length xs"
  by (simp add: length_concat_uniform [of _ "length xs"] meshgrid_def)

lemma nat_square: "0 \<le> N \<Longrightarrow> nat N * nat N = nat (N * N)"
  by (simp add: nat_mult_distrib)

lemma length_linspace: "length (linspace N) = nat N"
  by (simp add: linspace_def length_arange)

lemma length_rect_x: "0 \<le> N \<Longrightarrow> length (rect_x N) = nat (N2 N)"
  by (simp add: rect_x_def length_meshgrid_concat length_linspace nat_square N2_def)

lemma length_rect_y: "0 \<le> N \<Longrightarrow> length (rect_y N) = nat (N2 N)"
  by (simp add: rect_y_def length_meshgrid_concat length_linspace nat_square N2_def)

lemma length_hex_y: "0 \<le> N \<Longrightarrow> length (hex_y N) = nat (N2 N)"
  by (simp add: hex_y_def normalize_def hex_y_grid_def length_meshgrid_concat length_arange
                nat_square N2_def)

lemma length_hex_x_grid: "length (hex_x_grid N) = nat N"
  by (simp add: hex_x_grid_def initoff_def hex_dx_def shortoff_def meshgrid_def length_arange)

lemma length_hex_x_grid_row:
  assumes "1 \<le> N" "r \<in> set (hex_x_grid N)"
  shows "length r = nat N"
proof -
  from assms(2) obtain i row where "row \<in> set (hex_dx N)" "r = cumsum (i # row)"
    by (auto simp: hex_x_grid_def dest!: set_zip_rightD)
  moreover from this(1) have "length row = nat (N - 1)"
    by (auto simp: hex_dx_def shortoff_def meshgrid_def length_arange)
  ultimately show ?thesis
    using assms(1) by (simp add: cumsum_def length_cumsum_from) 
qed

lemma length_hex_x: "1 \<le> N \<Longrightarrow> length (hex_x N) = nat (N2 N)"
  using length_concat_uniform [of "hex_x_grid N" "nat N"]
  by (simp add: hex_x_def normalize_def length_hex_x_grid length_hex_x_grid_row nat_square N2_def)

lemma length_hex_stencil_r_row: "row \<in> set (hex_stencil_r N) \<Longrightarrow> length row = 4"
  by (auto simp: hex_stencil_r_def hex_tmp_r_eq shift_def dest!: in_set_butlastD in_set_tl)

lemma length_hex_stencil_l_row: "row \<in> set (hex_stencil_l N) \<Longrightarrow> length row = 4"
  by (auto simp: hex_stencil_l_def hex_tmp_l_eq shift_def dest!: in_set_butlastD in_set_tl)

lemma hex_centr_bounds:
  assumes "valid_N N" "i \<in> set (hex_centr N)"
  shows "0 \<le> i \<and> i < N * N"
proof -
  from assms(2) consider row where "row \<in> set (hex_stencil_r N)" "i = row ! 2"
    | row where "row \<in> set (hex_stencil_l N)" "i = row ! 1"
    by (auto simp: hex_centr_def column_def)
  then show ?thesis
  proof cases
    case 1
    with length_hex_stencil_r_row [OF 1(1)] have "i \<in> set row" by simp
    with hex_stencil_r_bounds [OF assms(1) 1(1)] show ?thesis by blast
  next
    case 2
    with length_hex_stencil_l_row [OF 2(1)] have "i \<in> set row" by simp
    with hex_stencil_l_bounds [OF assms(1) 2(1)] show ?thesis by blast
  qed
qed

text \<open>
  C10. For every valid \<open>N\<close>, every node index in the boundary lists, the rectangular
  stencils, both hexagonal stencil families, the polygon lists and the center lists is at
  least 0 and below \<open>N * N\<close>, and the coordinate vectors of both meshes have \<open>N * N\<close>
  entries, so indexing them with these artifacts stays in bounds.
\<close>

theorem connectivity_in_bounds:
  assumes "valid_N N"
  shows "list_all (index_ok N) (hex_bcs_all N) \<and> list_all (index_ok N) (rect_bcs_all N)
       \<and> list_all (list_all (index_ok N)) (rect_stencil N)
       \<and> list_all (list_all (index_ok N)) (hex_stencil_r N)
       \<and> list_all (list_all (index_ok N)) (hex_stencil_l N)
       \<and> list_all (list_all (index_ok N)) (hex_polys N)
       \<and> list_all (list_all (index_ok N)) (rect_polys N)
       \<and> list_all (index_ok N) (hex_centr N) \<and> list_all (index_ok N) (rect_centr N)
       \<and> length (hex_x N) = nat (N2 N) \<and> length (hex_y N) = nat (N2 N)
       \<and> length (rect_x N) = nat (N2 N) \<and> length (rect_y N) = nat (N2 N)"
proof -
  from assms have N: "1 \<le> N" "0 \<le> N" by (auto simp: valid_N_def)
  have "0 \<le> c \<and> c < N * N" if "c \<in> set (rect_centr N)" for c
    using rect_centr_bounds [OF assms that] N by linarith
  then have "list_all (index_ok N) (rect_centr N)"
    by (simp add: list_all_iff index_ok_def N2_def)
  then show ?thesis
    using hex_bcs_all_bounds [OF assms] rect_bcs_all_bounds [OF assms]
      rect_stencil_bounds [OF assms] hex_stencil_r_bounds [OF assms]
      hex_stencil_l_bounds [OF assms] hex_polys_bounds [OF assms] rect_polys_bounds [OF assms]
      hex_centr_bounds [OF assms]
      length_hex_x [OF N(1)] length_hex_y [OF N(2)] length_rect_x [OF N(2)] length_rect_y [OF N(2)]
    by (simp add: list_all_iff index_ok_def N2_def)
qed

theorem connectivity_in_bounds_witness:
  "valid_N 6 \<and> list_all (index_ok 6) (hex_bcs_all 6) \<and> list_all (list_all (index_ok 6)) (hex_polys 6)
   \<and> list_all (index_ok 6) (hex_centr 6) \<and> length (rect_x 6) = 36"
  using connectivity_in_bounds [of 6] by (simp add: valid_N_def N2_def)

section \<open>Rows of the assembled matrices\<close>

lemma arange_nat: "arange 0 (int n) = map int [0..<n]"
proof (induction n)
  case 0
  show ?case by (simp add: arange_def)
next
  case (Suc n)
  have "[0..int (Suc n) - 1] = [0..int n - 1] @ [int n]"
    using upto_rec2 [of 0 "int n"] by simp
  with Suc show ?case by (simp add: arange_def)
qed

lemma zip_enum_snoc:
  "zip (map int [0..<Suc (length ys)]) (ys @ [y]) = zip (map int [0..<length ys]) ys @ [(int (length ys), y)]"
  by simp

lemma row_sum_enum:
  fixes F :: "int \<times> 'a \<Rightarrow> real"
  assumes "\<And>r y. r \<noteq> int k \<Longrightarrow> F (r, y) = 0"
  shows "sum_list (map F (zip (map int [0..<length ys]) ys))
     = (if k < length ys then F (int k, ys ! k) else 0)"
proof (induction ys rule: rev_induct)
  case Nil
  show ?case by simp
next
  case (snoc y ys)
  have z: "zip (map int [0..<length (ys @ [y])]) (ys @ [y])
      = zip (map int [0..<length ys]) ys @ [(int (length ys), y)]"
    by simp
  show ?case unfolding z using snoc assms by (auto simp: nth_append less_Suc_eq)
qed

lemma sum_list_zero: "\<forall>x \<in> set xs. g x = (0::real) \<Longrightarrow> sum_list (map g xs) = 0"
  by (induction xs) auto

lemma length_every_other: "length (every_other xs) = (length xs + 1) div 2"
  by (induction xs rule: every_other.induct) auto

lemma assign_rows_enum:
  "length vals \<le> length b \<Longrightarrow>
     assign_rows b (map int [0..<length vals]) vals = vals @ drop (length vals) b"
proof (induction vals rule: rev_induct)
  case Nil
  show ?case by (simp add: assign_rows_def)
next
  case (snoc v vals)
  then have n: "length vals < length b" by simp
  have "assign_rows b (map int [0..<length (vals @ [v])]) (vals @ [v])
      = (assign_rows b (map int [0..<length vals]) vals)[length vals := v]"
    by (simp add: assign_rows_def)
  also have "\<dots> = (vals @ drop (length vals) b)[length vals := v]"
    using snoc by simp
  also have "\<dots> = vals @ (drop (length vals) b)[0 := v]"
    by (simp add: list_update_append)
  also have "\<dots> = vals @ v # drop (Suc (length vals)) b"
    using n by (simp add: Cons_nth_drop_Suc [symmetric])
  finally show ?case by simp
qed

lemma assign_rows_other:
  "\<forall>r \<in> set rows. nat r \<noteq> k \<Longrightarrow> assign_rows b rows vals ! k = b ! k"
proof -
  have "\<forall>p \<in> set ps. nat (fst p) \<noteq> k \<Longrightarrow> fold (\<lambda>(r, v) b'. b'[nat r := v]) ps b ! k = b ! k"
    for ps :: "(int \<times> real) list" and b
    by (induction ps arbitrary: b) (auto simp: case_prod_beta)
  moreover assume "\<forall>r \<in> set rows. nat r \<noteq> k"
  then have "\<forall>p \<in> set (zip rows vals). nat (fst p) \<noteq> k"
    by (auto dest: set_zip_leftD)
  ultimately show ?thesis by (simp add: assign_rows_def)
qed

lemma length_assign_rows: "length (assign_rows b rows vals) = length b"
proof -
  have "length (fold (\<lambda>(r, v) b'. b'[nat r := v]) ps b) = length b"
    for ps :: "(int \<times> real) list" and b
    by (induction ps arbitrary: b) (auto simp: case_prod_beta)
  then show ?thesis by (simp add: assign_rows_def)
qed

lemma valid_N_half:
  assumes "valid_N N"
  obtains m :: nat where "N = 2 * int m" "3 \<le> m"
proof -
  from assms have "N mod 2 = 0" "4 < N" by (auto simp: valid_N_def)
  then have h: "N = 2 * (N div 2)" "3 \<le> N div 2" by presburger+
  then have "N = 2 * int (nat (N div 2))" "3 \<le> nat (N div 2)" by simp_all
  then show ?thesis by (rule that)
qed

lemma length_ev0:
  assumes "valid_N N"
  shows "length (every_other (arange 0 (N - 1))) = nat (N div 2)"
proof -
  from assms obtain m where m: "N = 2 * int m" "3 \<le> m" by (rule valid_N_half)
  have "nat (2 * int m - 1) = 2 * m - 1" by linarith
  then show ?thesis using m(2) by (simp add: length_every_other length_arange m(1))
qed

lemma length_ev1:
  assumes "valid_N N"
  shows "length (every_other (arange 1 (N - 1))) = nat (N div 2 - 1)"
proof -
  from assms obtain m where m: "N = 2 * int m" "3 \<le> m" by (rule valid_N_half)
  have "nat (2 * int m - 2) = 2 * m - 2" "nat (int m - 1) = m - 1" by linarith+
  moreover have "(2 * m - 2 + 1) div 2 = m - 1" using m(2) by linarith
  ultimately show ?thesis by (simp add: length_every_other length_arange m(1))
qed

lemma length_concat4:
  "length (concat (map (\<lambda>v. [f1 v, f2 v, f3 v, f4 v]) xs)) = 4 * length xs"
  by (induction xs) auto

lemma length_hex_bcs_bottom:
  assumes "valid_N N"
  shows "length (hex_bcs_bottom N) = nat (2 * N - 4)"
proof -
  from assms have N: "N mod 2 = 0" "4 < N" by (auto simp: valid_N_def)
  have "length (hex_bcs_bottom N) = 4 * nat (N div 2 - 1)"
    unfolding hex_bcs_bottom_eq length_butlast
    by (simp add: length_concat4 length_ev1 [OF assms])
  also have "\<dots> = nat (2 * N - 4)"
  proof -
    from assms obtain m where m: "N = 2 * int m" "3 \<le> m" by (rule valid_N_half)
    have "nat (int m - 1) = m - 1" "nat (4 * int m - 4) = 4 * m - 4" by linarith+
    then show ?thesis using m(2) by (simp add: m(1))
  qed
  finally show ?thesis .
qed

lemma length_hex_bcs_top:
  assumes "valid_N N"
  shows "length (hex_bcs_top N) = nat (2 * N - 4)"
proof -
  from assms have N: "N mod 2 = 0" "4 < N" by (auto simp: valid_N_def)
  have "length (hex_bcs_top N) = 4 * nat (N div 2 - 1)"
    unfolding hex_bcs_top_eq by (simp add: length_concat4 length_ev1 [OF assms])
  also have "\<dots> = nat (2 * N - 4)"
  proof -
    from assms obtain m where m: "N = 2 * int m" "3 \<le> m" by (rule valid_N_half)
    have "nat (int m - 1) = m - 1" "nat (4 * int m - 4) = 4 * m - 4" by linarith+
    then show ?thesis using m(2) by (simp add: m(1))
  qed
  finally show ?thesis .
qed

lemma length_hex_bcs_all:
  assumes "valid_N N"
  shows "length (hex_bcs_all N) = nat (6 * N - 8)"
proof -
  from assms have N: "4 < N" by (auto simp: valid_N_def)
  have "length (hex_bcs_all N) = nat (2 * N - 4) + nat N + nat (2 * N - 4) + nat N"
    by (simp add: hex_bcs_all_def length_hex_bcs_bottom [OF assms] length_hex_bcs_top [OF assms]
                  hex_bcs_right_def hex_bcs_left_def length_arange)
  also have "\<dots> = nat (6 * N - 8)" using N by linarith
  finally show ?thesis .
qed

lemma length_rect_bcs_all:
  assumes "valid_N N"
  shows "length (rect_bcs_all N) = nat (4 * N - 4)"
proof -
  from assms have N: "4 < N" by (auto simp: valid_N_def)
  have "length (rect_bcs_all N) = nat N + nat (N - 2) + nat N + nat (N - 2)"
    by (simp add: rect_bcs_all_def rect_bcs_bottom_def rect_bcs_top_def rect_bcs_right_def
                  rect_bcs_left_def length_arange)
  also have "\<dots> = nat (4 * N - 4)" using N by linarith
  finally show ?thesis .
qed

lemma last_arange: "0 < n \<Longrightarrow> last (arange 0 n) = n - 1"
  using upto_rec2 [of 0 "n - 1"] by (simp add: arange_def)

lemma rect_start: "valid_N N \<Longrightarrow> rect_rows_bulk_start_idx N = 4 * N - 4"
  by (simp add: rect_rows_bulk_start_idx_def rect_rows_bc_def length_rect_bcs_all last_arange valid_N_def)

lemma hex_start: "valid_N N \<Longrightarrow> hex_rows_bulk_start_idx N = 6 * N - 8"
  by (simp add: hex_rows_bulk_start_idx_def hex_rows_bc_def length_hex_bcs_all last_arange valid_N_def)

lemma I_bc_row:
  fixes F :: "int \<times> int \<times> real \<Rightarrow> real"
  assumes "\<And>r y. r \<noteq> int k \<Longrightarrow> F (r, y) = 0" "k < length cs"
  shows "sum_list (map F (csr_matrix (map (\<lambda>r. real_of_int (1 + 0 * r)) (arange 0 (int (length cs))))
                                      (arange 0 (int (length cs))) cs))
           = F (int k, cs ! k, 1)"
proof -
  define ys where "ys = zip cs (map (\<lambda>r. real_of_int (1 + 0 * r)) (map int [0..<length cs]))"
  have len: "length ys = length cs" by (simp add: ys_def)
  have "csr_matrix (map (\<lambda>r. real_of_int (1 + 0 * r)) (arange 0 (int (length cs))))
                   (arange 0 (int (length cs))) cs = zip (map int [0..<length ys]) ys"
    by (simp add: csr_matrix_def arange_nat ys_def)
  moreover have "ys ! k = (cs ! k, 1)" using assms(2) by (simp add: ys_def)
  ultimately show ?thesis
    using row_sum_enum [of k F ys, OF assms(1)] assms(2) len by simp
qed

lemma set_repeat: "set (repeat xs n) \<subseteq> set xs"
  by (auto simp: repeat_def)

lemma bulk_rows_ge:
  assumes "(r, y) \<in> set (csr_matrix elmt (map (\<lambda>v. start + v) (repeat (arange 0 n) p)) cols)"
  shows "start \<le> r"
proof -
  from assms have "r \<in> set (map (\<lambda>v. start + v) (repeat (arange 0 n) p))"
    by (auto simp: csr_matrix_def dest: set_zip_leftD)
  then obtain v where "v \<in> set (repeat (arange 0 n) p)" "r = start + v" by auto
  with set_repeat [of "arange 0 n" p] show ?thesis by (auto simp: set_arange)
qed

lemma bulk_sum_zero:
  fixes F :: "int \<times> int \<times> real \<Rightarrow> real"
  assumes "\<And>r y. r \<noteq> k \<Longrightarrow> F (r, y) = 0" "k < start"
  shows "sum_list (map F (csr_matrix elmt (map (\<lambda>v. start + v) (repeat (arange 0 n) p)) cols)) = 0"
proof (rule sum_list_zero, rule ballI)
  fix x assume x: "x \<in> set (csr_matrix elmt (map (\<lambda>v. start + v) (repeat (arange 0 n) p)) cols)"
  obtain r y where xy: "x = (r, y)" by (cases x)
  from x have "start \<le> r" unfolding xy by (rule bulk_rows_ge)
  with assms(2) have "r \<noteq> k" by simp
  with assms(1) xy show "F x = 0" by simp
qed

lemma rect_M_bc_row:
  fixes F :: "int \<times> int \<times> real \<Rightarrow> real"
  assumes "valid_N N" "\<And>r y. r \<noteq> int k \<Longrightarrow> F (r, y) = 0" "k < length (rect_bcs_all N)"
  shows "sum_list (map F (rect_M mu dt N)) = F (int k, rect_bcs_all N ! k, 1)"
proof -
  from assms(1,3) have "int k < rect_rows_bulk_start_idx N"
    by (simp add: rect_start length_rect_bcs_all)
  then have "sum_list (map F (rect_A mu dt N)) = 0"
    unfolding rect_A_def rect_rows_def by (intro bulk_sum_zero assms(2))
  moreover have "sum_list (map F (rect_I_bc N)) = F (int k, rect_bcs_all N ! k, 1)"
    unfolding rect_I_bc_def rect_rows_bc_def by (intro I_bc_row assms)
  ultimately show ?thesis by (simp add: rect_M_def)
qed

lemma length_hex_tmp_r: "valid_N N \<Longrightarrow> length (hex_tmp_r N) = nat (N div 2)"
  by (simp add: hex_tmp_r_eq length_ev0)

lemma length_hex_tmp_l: "valid_N N \<Longrightarrow> length (hex_tmp_l N) = nat (N div 2)"
  by (simp add: hex_tmp_l_eq length_ev0)

lemma length_hex_stencil_r:
  assumes "valid_N N"
  shows "length (hex_stencil_r N) = nat ((N div 2 - 2) * (N - 2))"
proof -
  from assms obtain m where m: "N = 2 * int m" "3 \<le> m" by (rule valid_N_half)
  have "length (hex_stencil_r N) = length (arange 0 (N div 2 - 2)) * (2 * (nat (N div 2) - 1))"
    unfolding hex_stencil_r_def
    by (subst length_concat_uniform [where m = "2 * (nat (N div 2) - 1)"])
       (auto simp: shift_def length_hex_tmp_r [OF assms])
  also have "\<dots> = (m - 2) * (2 * m - 2)"
    using m(2) by (simp add: length_arange m(1) nat_diff_distrib' right_diff_distrib')
  also have "\<dots> = nat ((N div 2 - 2) * (N - 2))"
  proof -
    have a: "nat (int m - 2) = m - 2" "nat (2 * int m - 2) = 2 * m - 2" by linarith+
    have "0 \<le> int m - 2" using m(2) by linarith
    then have "nat ((int m - 2) * (2 * int m - 2)) = nat (int m - 2) * nat (2 * int m - 2)"
      by (rule nat_mult_distrib)
    moreover have "N div 2 - 2 = int m - 2" "N - 2 = 2 * int m - 2" by (simp_all add: m(1))
    ultimately show ?thesis by (simp only: a)
  qed
  finally show ?thesis .
qed

lemma length_hex_stencil_l:
  assumes "valid_N N"
  shows "length (hex_stencil_l N) = nat ((N div 2 - 2) * (N - 2))"
proof -
  from assms obtain m where m: "N = 2 * int m" "3 \<le> m" by (rule valid_N_half)
  have "length (hex_stencil_l N) = length (arange 0 (N div 2 - 2)) * (2 * (nat (N div 2) - 1))"
    unfolding hex_stencil_l_def
    by (subst length_concat_uniform [where m = "2 * (nat (N div 2) - 1)"])
       (auto simp: shift_def length_hex_tmp_l [OF assms])
  also have "\<dots> = (m - 2) * (2 * m - 2)"
    using m(2) by (simp add: length_arange m(1) nat_diff_distrib' right_diff_distrib')
  also have "\<dots> = nat ((N div 2 - 2) * (N - 2))"
  proof -
    have a: "nat (int m - 2) = m - 2" "nat (2 * int m - 2) = 2 * m - 2" by linarith+
    have "0 \<le> int m - 2" using m(2) by linarith
    then have "nat ((int m - 2) * (2 * int m - 2)) = nat (int m - 2) * nat (2 * int m - 2)"
      by (rule nat_mult_distrib)
    moreover have "N div 2 - 2 = int m - 2" "N - 2 = 2 * int m - 2" by (simp_all add: m(1))
    ultimately show ?thesis by (simp only: a)
  qed
  finally show ?thesis .
qed

lemma hex_stencil_count_pos:
  assumes "valid_N N"
  shows "0 < (N div 2 - 2) * (N - 2)"
proof -
  from assms have "N mod 2 = 0" "4 < N" by (auto simp: valid_N_def)
  then have "0 < N div 2 - 2" "0 < N - 2" by presburger+
  then show ?thesis by (rule mult_pos_pos)
qed

lemma last_repeat: "xs \<noteq> [] \<Longrightarrow> 0 < p \<Longrightarrow> last (repeat xs p) = last xs"
  by (induction xs rule: rev_induct) (auto simp: repeat_def)

lemma hex_rows_l_start:
  assumes "valid_N N"
  shows "1 + last (hex_rows_r N) = hex_rows_bulk_start_idx N + int (length (hex_stencil_r N))"
proof -
  have pos: "0 < int (length (hex_stencil_r N))"
    using hex_stencil_count_pos [OF assms] by (simp add: length_hex_stencil_r [OF assms])
  then have ne: "arange 0 (int (length (hex_stencil_r N))) \<noteq> []"
    by (simp add: arange_def)
  then have "repeat (arange 0 (int (length (hex_stencil_r N)))) 4 \<noteq> []"
    by (cases "arange 0 (int (length (hex_stencil_r N)))") (simp_all add: repeat_def)
  then show ?thesis
    using pos ne by (simp add: hex_rows_r_def last_map last_repeat last_arange)
qed

lemma arange_Suc: "arange 0 (int (Suc n)) = 0 # map (\<lambda>v. 1 + v) (arange 0 (int n))"
proof -
  have "[0..<Suc n] = 0 # map Suc [0..<n]"
    by (simp add: upt_conv_Cons map_Suc_upt del: upt_Suc)
  then show ?thesis unfolding arange_nat by (simp add: comp_def del: upt_Suc)
qed

lemma bulk_triplets_Cons:
  assumes "length row = length cs"
  shows "csr_matrix (tile cs (Suc n)) (map (\<lambda>v. start + v) (repeat (arange 0 (int (Suc n))) (length cs)))
                    (concat (row # st))
       = map (Pair start) (zip row cs)
         @ csr_matrix (tile cs n) (map (\<lambda>v. (start + 1) + v) (repeat (arange 0 (int n)) (length cs)))
                      (concat st)"
proof -
  have rows: "map (\<lambda>v. start + v) (repeat (arange 0 (int (Suc n))) (length cs))
      = replicate (length cs) start
        @ map (\<lambda>v. (start + 1) + v) (repeat (arange 0 (int n)) (length cs))"
    unfolding arange_Suc by (simp add: repeat_def map_concat comp_def add.assoc)
  have "zip (replicate (length cs) start) (zip row cs) = map (Pair start) (zip row cs)"
    using assms by (simp add: zip_replicate1)
  then show ?thesis
    unfolding csr_matrix_def rows using assms by (simp add: tile_def)
qed

lemma bulk_row_sum:
  fixes F :: "int \<times> int \<times> real \<Rightarrow> real"
  assumes "\<And>r y. r \<noteq> start + int k \<Longrightarrow> F (r, y) = 0"
    and "\<forall>row \<in> set st. length row = length cs"
  shows "sum_list (map F (csr_matrix (tile cs (length st))
                            (map (\<lambda>v. start + v) (repeat (arange 0 (int (length st))) (length cs)))
                            (concat st)))
       = (if k < length st
          then sum_list (map (\<lambda>y. F (start + int k, y)) (zip (st ! k) cs)) else 0)"
  using assms
proof (induction st arbitrary: start k)
  case Nil
  show ?case by (simp add: csr_matrix_def repeat_def arange_def)
next
  case (Cons row st)
  from Cons.prems(2) have len: "length row = length cs"
    and rest: "\<forall>row \<in> set st. length row = length cs" by auto
  have split: "csr_matrix (tile cs (length (row # st)))
       (map (\<lambda>v. start + v) (repeat (arange 0 (int (length (row # st)))) (length cs)))
       (concat (row # st))
     = map (Pair start) (zip row cs)
       @ csr_matrix (tile cs (length st))
            (map (\<lambda>v. (start + 1) + v) (repeat (arange 0 (int (length st))) (length cs)))
            (concat st)"
    using bulk_triplets_Cons [OF len, of "length st" start st] by (simp only: list.size add_Suc_right add_0_right One_nat_def)
  show ?case
  proof (cases k)
    case 0
    have "sum_list (map F (csr_matrix (tile cs (length st))
            (map (\<lambda>v. (start + 1) + v) (repeat (arange 0 (int (length st))) (length cs)))
            (concat st))) = 0"
      using Cons.prems(1) 0 by (intro bulk_sum_zero) auto
    then show ?thesis unfolding split using 0 by (simp add: comp_def)
  next
    case (Suc k')
    have z: "F (r, y) = 0" if "r \<noteq> (start + 1) + int k'" for r y
      using Cons.prems(1) [of r y] that Suc by simp
    have "sum_list (map (\<lambda>y. F (start, y)) (zip row cs)) = 0"
      using Cons.prems(1) Suc by (intro sum_list_zero) auto
    moreover from Cons.IH [OF z rest]
    have "sum_list (map F (csr_matrix (tile cs (length st))
            (map (\<lambda>v. (start + 1) + v) (repeat (arange 0 (int (length st))) (length cs)))
            (concat st)))
        = (if k' < length st
           then sum_list (map (\<lambda>y. F (start + 1 + int k', y)) (zip (st ! k') cs)) else 0)" .
    moreover have e: "start + (1 + int k') = start + 1 + int k'" by simp
    ultimately show ?thesis unfolding split using Suc by (simp add: comp_def e)
  qed
qed

lemma hex_M_bc_row:
  fixes F :: "int \<times> int \<times> real \<Rightarrow> real"
  assumes "valid_N N" "\<And>r y. r \<noteq> int k \<Longrightarrow> F (r, y) = 0" "k < length (hex_bcs_all N)"
  shows "sum_list (map F (hex_M mu dt N)) = F (int k, hex_bcs_all N ! k, 1)"
proof -
  from assms(1,3) have lt: "int k < hex_rows_bulk_start_idx N"
    by (simp add: hex_start length_hex_bcs_all)
  then have "sum_list (map F (hex_A_r mu dt N)) = 0"
    unfolding hex_A_r_def hex_rows_r_def by (intro bulk_sum_zero assms(2))
  moreover from lt have "int k < 1 + last (hex_rows_r N)"
    by (simp add: hex_rows_l_start [OF assms(1)])
  then have "sum_list (map F (hex_A_l mu dt N)) = 0"
    unfolding hex_A_l_def hex_rows_l_def by (intro bulk_sum_zero assms(2))
  moreover have "sum_list (map F (hex_I_bc N)) = F (int k, hex_bcs_all N ! k, 1)"
    unfolding hex_I_bc_def hex_rows_bc_def by (intro I_bc_row assms)
  ultimately show ?thesis by (simp add: hex_M_def)
qed

lemma bc_count_le:
  assumes "valid_N N"
  shows "length (rect_bcs_all N) \<le> nat (N2 N)" "length (hex_bcs_all N) \<le> nat (N2 N)"
proof -
  from square_bound [OF assms] have "6 * N \<le> N2 N" by (simp add: N2_def)
  moreover from assms have "4 < N" by (simp add: valid_N_def)
  ultimately show "length (rect_bcs_all N) \<le> nat (N2 N)" "length (hex_bcs_all N) \<le> nat (N2 N)"
    by (simp_all add: length_rect_bcs_all [OF assms] length_hex_bcs_all [OF assms])
qed

lemma assign_bc_rows:
  assumes "length cs \<le> length b" "k < length cs"
  shows "assign_rows b (arange 0 (int (length cs))) (map2 g (gather xs cs) (gather ys cs)) ! k
           = g (xs ! nat (cs ! k)) (ys ! nat (cs ! k))"
proof -
  define vals where "vals = map2 g (gather xs cs) (gather ys cs)"
  have len: "length vals = length cs" by (simp add: vals_def gather_def)
  have "assign_rows b (arange 0 (int (length cs))) vals = vals @ drop (length vals) b"
    using assign_rows_enum [of vals b] assms(1) by (simp add: arange_nat len)
  then have "assign_rows b (arange 0 (int (length cs))) vals ! k = vals ! k"
    using assms(2) by (simp add: nth_append len)
  also have "\<dots> = g (xs ! nat (cs ! k)) (ys ! nat (cs ! k))"
    using assms(2) by (simp add: vals_def gather_def)
  finally show ?thesis by (simp add: vals_def)
qed

section \<open>Dirichlet rows\<close>

text \<open>
  C7. For each mesh and every position \<open>k\<close> in its boundary list, row \<open>k\<close> of the assembled
  matrix has the entry 1 in the column of the \<open>k\<close>-th boundary node and the entry 0 in every
  other column, and entry \<open>k\<close> of the initial right-hand side is the oracle at \<open>t = 0\<close> at the
  coordinates of that node.
\<close>

theorem dirichlet_rows:
  assumes "valid_N N"
  shows "(\<forall>k<length (rect_bcs_all N).
            (\<forall>c. entry (rect_M mu dt N) (int k) c = (if c = rect_bcs_all N ! k then 1 else 0))
          \<and> rect_rhs0 f N ! k
              = f 0 (rect_x N ! nat (rect_bcs_all N ! k)) (rect_y N ! nat (rect_bcs_all N ! k)))
       \<and> (\<forall>k<length (hex_bcs_all N).
            (\<forall>c. entry (hex_M mu dt N) (int k) c = (if c = hex_bcs_all N ! k then 1 else 0))
          \<and> hex_rhs0 f N ! k
              = f 0 (hex_x N ! nat (hex_bcs_all N ! k)) (hex_y N ! nat (hex_bcs_all N ! k)))"
proof (intro conjI allI impI)
  fix k c assume k: "k < length (rect_bcs_all N)"
  show "entry (rect_M mu dt N) (int k) c = (if c = rect_bcs_all N ! k then 1 else 0)"
    unfolding entry_def by (subst rect_M_bc_row [OF assms _ k]) auto
  show "rect_rhs0 f N ! k
      = f 0 (rect_x N ! nat (rect_bcs_all N ! k)) (rect_y N ! nat (rect_bcs_all N ! k))"
    unfolding rect_rhs0_def using bc_count_le(1) [OF assms] k by (intro assign_bc_rows) simp_all
next
  fix k c assume k: "k < length (hex_bcs_all N)"
  show "entry (hex_M mu dt N) (int k) c = (if c = hex_bcs_all N ! k then 1 else 0)"
    unfolding entry_def by (subst hex_M_bc_row [OF assms _ k]) auto
  show "hex_rhs0 f N ! k
      = f 0 (hex_x N ! nat (hex_bcs_all N ! k)) (hex_y N ! nat (hex_bcs_all N ! k))"
    unfolding hex_rhs0_def using bc_count_le(2) [OF assms] k by (intro assign_bc_rows) simp_all
qed

theorem dirichlet_rows_witness:
  "valid_N 6 \<and> 7 < length (rect_bcs_all 6) \<and> 7 < length (hex_bcs_all 6)
   \<and> entry (rect_M (1/100) (5/100) 6) 7 17 = 1 \<and> entry (rect_M (1/100) (5/100) 6) 7 16 = 0
   \<and> entry (hex_M (1/100) (5/100) 6) 7 10 = 1
   \<and> hex_rhs0 (exact_u (1/100)) 6 ! 7 = exact_u (1/100) 0 (hex_x 6 ! 10) (hex_y 6 ! 10)"
proof -
  have v: "valid_N 6" by (simp add: valid_N_def)
  have l: "7 < length (rect_bcs_all 6)" "7 < length (hex_bcs_all 6)"
    by (simp_all add: length_rect_bcs_all [OF v] length_hex_bcs_all [OF v])
  have n: "rect_bcs_all 6 ! 7 = 17" "hex_bcs_all 6 ! 7 = 10" by code_simp+
  note d = dirichlet_rows [OF v, of "1/100" "5/100" "exact_u (1/100)"]
  from d l(1) have r: "\<forall>c. entry (rect_M (1/100) (5/100) 6) (int 7) c = (if c = rect_bcs_all 6 ! 7 then 1 else 0)"
    by blast
  from d l(2) have h: "\<forall>c. entry (hex_M (1/100) (5/100) 6) (int 7) c = (if c = hex_bcs_all 6 ! 7 then 1 else 0)"
    and b: "hex_rhs0 (exact_u (1/100)) 6 ! 7
              = exact_u (1/100) 0 (hex_x 6 ! nat (hex_bcs_all 6 ! 7)) (hex_y 6 ! nat (hex_bcs_all 6 ! 7))"
    by blast+
  from r [rule_format, of 17] r [rule_format, of 16] h [rule_format, of 10] b v l
  show ?thesis by (simp add: n)
qed

section \<open>Stencil rows of the hexagonal matrix\<close>

lemma hex_stencil_r_shape:
  assumes "row \<in> set (hex_stencil_r N)"
  obtains t where "row = [t, t + N, t + N + 1, t + 2 * N]"
proof -
  from assms obtain s row0 where "row0 \<in> set (hex_tmp_r N)" "row = map (\<lambda>v. v + s) row0"
    by (auto simp: hex_stencil_r_def shift_def dest!: in_set_butlastD in_set_tl)
  then obtain e where "row = map (\<lambda>v. v + s) [1 + N + e, 1 + 2 * N + e, 2 + 2 * N + e, 3 * N + 1 + e]"
    by (auto simp: hex_tmp_r_eq)
  then have "row = [(1 + N + e + s), (1 + N + e + s) + N, (1 + N + e + s) + N + 1, (1 + N + e + s) + 2 * N]"
    by simp
  then show ?thesis by (rule that)
qed

lemma hex_stencil_l_shape:
  assumes "row \<in> set (hex_stencil_l N)"
  obtains t where "row = [t, t + N - 1, t + N, t + 2 * N]"
proof -
  from assms obtain s row0 where "row0 \<in> set (hex_tmp_l N)" "row = map (\<lambda>v. v + s) row0"
    by (auto simp: hex_stencil_l_def shift_def dest!: in_set_butlastD in_set_tl)
  then obtain e where "row = map (\<lambda>v. v + s) [N + e, - 1 + 2 * N + e, 2 * N + e, 3 * N + e]"
    by (auto simp: hex_tmp_l_eq)
  then have "row = [(N + e + s), (N + e + s) + N - 1, (N + e + s) + N, (N + e + s) + 2 * N]"
    by simp
  then show ?thesis by (rule that)
qed

lemma I_bc_rows_lt:
  assumes "(r, y) \<in> set (csr_matrix elmt (arange 0 n) cols)"
  shows "r < n"
  using assms by (auto simp: csr_matrix_def set_arange dest!: set_zip_leftD)

lemma I_bc_sum_zero:
  fixes F :: "int \<times> int \<times> real \<Rightarrow> real"
  assumes "\<And>r y. r \<noteq> k \<Longrightarrow> F (r, y) = 0" "n \<le> k"
  shows "sum_list (map F (csr_matrix elmt (arange 0 n) cols)) = 0"
proof (rule sum_list_zero, rule ballI)
  fix x assume x: "x \<in> set (csr_matrix elmt (arange 0 n) cols)"
  obtain r y where xy: "x = (r, y)" by (cases x)
  from x have "r < n" unfolding xy by (rule I_bc_rows_lt)
  with assms(2) have "r \<noteq> k" by simp
  with assms(1) xy show "F x = 0" by simp
qed

lemma hex_M_r_row:
  fixes F :: "int \<times> int \<times> real \<Rightarrow> real"
  assumes "valid_N N" "k < length (hex_stencil_r N)"
    and "\<And>r y. r \<noteq> hex_rows_bulk_start_idx N + int k \<Longrightarrow> F (r, y) = 0"
  shows "sum_list (map F (hex_M mu dt N))
       = sum_list (map (\<lambda>y. F (hex_rows_bulk_start_idx N + int k, y))
           (zip (hex_stencil_r N ! k)
                [mu * 4 / (3 * (h N)\<^sup>2), - mu * 4 / (h N)\<^sup>2 - 1 / dt, mu * 4 / (3 * (h N)\<^sup>2),
                 mu * 4 / (3 * (h N)\<^sup>2)]))"
proof -
  define cs where "cs = [mu * 4 / (3 * (h N)\<^sup>2), - mu * 4 / (h N)\<^sup>2 - 1 / dt, mu * 4 / (3 * (h N)\<^sup>2),
                 mu * 4 / (3 * (h N)\<^sup>2)]"
  have lcs: "length cs = 4" by (simp add: cs_def)
  have "int (length (hex_bcs_all N)) \<le> hex_rows_bulk_start_idx N + int k"
    using assms(1) by (simp add: hex_start length_hex_bcs_all valid_N_def)
  then have 1: "sum_list (map F (hex_I_bc N)) = 0"
    unfolding hex_I_bc_def hex_rows_bc_def by (intro I_bc_sum_zero assms(3))
  have "hex_rows_bulk_start_idx N + int k < 1 + last (hex_rows_r N)"
    using assms(2) by (simp add: hex_rows_l_start [OF assms(1)])
  then have 2: "sum_list (map F (hex_A_l mu dt N)) = 0"
    unfolding hex_A_l_def hex_rows_l_def by (intro bulk_sum_zero assms(3))
  have "\<forall>row \<in> set (hex_stencil_r N). length row = length cs"
    by (simp add: lcs length_hex_stencil_r_row)
  note bulk_row_sum [of "hex_rows_bulk_start_idx N" k F "hex_stencil_r N" cs, OF assms(3) this,
      unfolded lcs]
  moreover have "hex_A_r mu dt N = csr_matrix (tile cs (length (hex_stencil_r N)))
       (map (\<lambda>v. hex_rows_bulk_start_idx N + v) (repeat (arange 0 (int (length (hex_stencil_r N)))) 4))
       (concat (hex_stencil_r N))"
    by (simp add: hex_A_r_def hex_rows_r_def hex_elmt_r_def hex_cols_r_def cs_def)
  ultimately have 3: "sum_list (map F (hex_A_r mu dt N))
      = sum_list (map (\<lambda>y. F (hex_rows_bulk_start_idx N + int k, y)) (zip (hex_stencil_r N ! k) cs))"
    using assms(2) by simp
  from 1 2 3 show ?thesis by (simp add: hex_M_def cs_def)
qed

lemma hex_M_l_row:
  fixes F :: "int \<times> int \<times> real \<Rightarrow> real"
  assumes "valid_N N" "k < length (hex_stencil_l N)"
    and "\<And>r y. r \<noteq> hex_rows_bulk_start_idx N + int (length (hex_stencil_r N)) + int k \<Longrightarrow> F (r, y) = 0"
  shows "sum_list (map F (hex_M mu dt N))
       = sum_list (map (\<lambda>y. F (hex_rows_bulk_start_idx N + int (length (hex_stencil_r N)) + int k, y))
           (zip (hex_stencil_l N ! k)
                [mu * 4 / (3 * (h N)\<^sup>2), mu * 4 / (3 * (h N)\<^sup>2), - mu * 4 / (h N)\<^sup>2 - 1 / dt,
                 mu * 4 / (3 * (h N)\<^sup>2)]))"
proof -
  define cs where "cs = [mu * 4 / (3 * (h N)\<^sup>2), mu * 4 / (3 * (h N)\<^sup>2), - mu * 4 / (h N)\<^sup>2 - 1 / dt,
                 mu * 4 / (3 * (h N)\<^sup>2)]"
  define cr where "cr = [mu * 4 / (3 * (h N)\<^sup>2), - mu * 4 / (h N)\<^sup>2 - 1 / dt, mu * 4 / (3 * (h N)\<^sup>2),
                 mu * 4 / (3 * (h N)\<^sup>2)]"
  define s where "s = hex_rows_bulk_start_idx N"
  define n where "n = length (hex_stencil_r N)"
  have lcs: "length cs = 4" "length cr = 4" by (simp_all add: cs_def cr_def)
  note z = assms(3) [folded s_def n_def]
  have "int (length (hex_bcs_all N)) \<le> s + int n + int k"
    using assms(1) by (simp add: hex_start length_hex_bcs_all valid_N_def s_def)
  then have 1: "sum_list (map F (hex_I_bc N)) = 0"
    unfolding hex_I_bc_def hex_rows_bc_def by (intro I_bc_sum_zero z)
  have z': "F (r, y) = 0" if "r \<noteq> s + int (n + k)" for r y
    using z [of r y] that by simp
  have "\<forall>row \<in> set (hex_stencil_r N). length row = length cr"
    by (simp add: lcs length_hex_stencil_r_row)
  note bulk_row_sum [of s "n + k" F "hex_stencil_r N" cr, OF z' this, unfolded lcs]
  moreover have "hex_A_r mu dt N = csr_matrix (tile cr (length (hex_stencil_r N)))
       (map (\<lambda>v. s + v) (repeat (arange 0 (int (length (hex_stencil_r N)))) 4))
       (concat (hex_stencil_r N))"
    by (simp add: hex_A_r_def hex_rows_r_def hex_elmt_r_def hex_cols_r_def cr_def s_def)
  ultimately have 2: "sum_list (map F (hex_A_r mu dt N)) = 0"
    by (simp add: n_def)
  have "\<forall>row \<in> set (hex_stencil_l N). length row = length cs"
    by (simp add: lcs length_hex_stencil_l_row)
  note bulk_row_sum [of "s + int n" k F "hex_stencil_l N" cs, OF z this, unfolded lcs]
  moreover have "hex_A_l mu dt N = csr_matrix (tile cs (length (hex_stencil_l N)))
       (map (\<lambda>v. s + int n + v) (repeat (arange 0 (int (length (hex_stencil_l N)))) 4))
       (concat (hex_stencil_l N))"
    by (simp add: hex_A_l_def hex_rows_l_def hex_elmt_l_def hex_cols_l_def cs_def
                  hex_rows_l_start [OF assms(1)] s_def n_def)
  ultimately have 3: "sum_list (map F (hex_A_l mu dt N))
      = sum_list (map (\<lambda>y. F (s + int n + int k, y)) (zip (hex_stencil_l N ! k) cs))"
    using assms(2) by simp
  from 1 2 3 show ?thesis by (simp add: hex_M_def cs_def s_def n_def)
qed

text \<open>
  C4. In the assembled hexagonal matrix every stencil row has four stored columns, all
  different. Counting the positions of the 4-tuple from 0, as the arrays \<^verbatim>\<open>hex_elmt_r\<close> and
  \<^verbatim>\<open>hex_elmt_l\<close> do, the column at position 1 of a right-family row, and the column at
  position 2 of a left-family row, carries \<open>- 4 mu / h\<^sup>2 - 1 / dt\<close>; the other three columns
  carry \<open>4 mu / (3 h\<^sup>2)\<close>; every other entry of the row is 0. The right-family rows follow
  the boundary rows, the left-family rows follow the right-family rows.
\<close>

theorem hex_stencil_coefficients:
  assumes "valid_N N"
  shows "(\<forall>k<length (hex_stencil_r N).
            length (hex_stencil_r N ! k) = 4 \<and> distinct (hex_stencil_r N ! k)
          \<and> (\<forall>c. entry (hex_M mu dt N) (hex_rows_bulk_start_idx N + int k) c
                = (if c = hex_stencil_r N ! k ! 1 then - 4 * mu / (h N)\<^sup>2 - 1 / dt
                   else if c \<in> {hex_stencil_r N ! k ! 0, hex_stencil_r N ! k ! 2, hex_stencil_r N ! k ! 3}
                   then 4 * mu / (3 * (h N)\<^sup>2) else 0)))
       \<and> (\<forall>k<length (hex_stencil_l N).
            length (hex_stencil_l N ! k) = 4 \<and> distinct (hex_stencil_l N ! k)
          \<and> (\<forall>c. entry (hex_M mu dt N)
                     (hex_rows_bulk_start_idx N + int (length (hex_stencil_r N)) + int k) c
                = (if c = hex_stencil_l N ! k ! 2 then - 4 * mu / (h N)\<^sup>2 - 1 / dt
                   else if c \<in> {hex_stencil_l N ! k ! 0, hex_stencil_l N ! k ! 1, hex_stencil_l N ! k ! 3}
                   then 4 * mu / (3 * (h N)\<^sup>2) else 0)))"
proof (intro conjI allI impI)
  from assms have N: "4 < N" by (simp add: valid_N_def)
  {
    fix k assume k: "k < length (hex_stencil_r N)"
    then have "hex_stencil_r N ! k \<in> set (hex_stencil_r N)" by simp
    then obtain t where row: "hex_stencil_r N ! k = [t, t + N, t + N + 1, t + 2 * N]"
      by (rule hex_stencil_r_shape)
    show "length (hex_stencil_r N ! k) = 4" by (simp add: row)
    show "distinct (hex_stencil_r N ! k)" using N by (simp add: row)
    fix c
    show "entry (hex_M mu dt N) (hex_rows_bulk_start_idx N + int k) c
        = (if c = hex_stencil_r N ! k ! 1 then - 4 * mu / (h N)\<^sup>2 - 1 / dt
           else if c \<in> {hex_stencil_r N ! k ! 0, hex_stencil_r N ! k ! 2, hex_stencil_r N ! k ! 3}
           then 4 * mu / (3 * (h N)\<^sup>2) else 0)"
      unfolding entry_def
      by (subst hex_M_r_row [OF assms k]) (use N in \<open>auto simp: row\<close>)
  }
  {
    fix k assume k: "k < length (hex_stencil_l N)"
    then have "hex_stencil_l N ! k \<in> set (hex_stencil_l N)" by simp
    then obtain t where row: "hex_stencil_l N ! k = [t, t + N - 1, t + N, t + 2 * N]"
      by (rule hex_stencil_l_shape)
    show "length (hex_stencil_l N ! k) = 4" by (simp add: row)
    show "distinct (hex_stencil_l N ! k)" using N by (simp add: row)
    fix c
    show "entry (hex_M mu dt N) (hex_rows_bulk_start_idx N + int (length (hex_stencil_r N)) + int k) c
        = (if c = hex_stencil_l N ! k ! 2 then - 4 * mu / (h N)\<^sup>2 - 1 / dt
           else if c \<in> {hex_stencil_l N ! k ! 0, hex_stencil_l N ! k ! 1, hex_stencil_l N ! k ! 3}
           then 4 * mu / (3 * (h N)\<^sup>2) else 0)"
      unfolding entry_def
      by (subst hex_M_l_row [OF assms k]) (use N in \<open>auto simp: row\<close>)
  }
qed

theorem hex_stencil_coefficients_witness:
  "valid_N 6 \<and> 0 < length (hex_stencil_r 6) \<and> 0 < length (hex_stencil_l 6)
   \<and> hex_stencil_r 6 ! 0 = [7, 13, 14, 19] \<and> hex_stencil_l 6 ! 0 = [8, 13, 14, 20]
   \<and> hex_rows_bulk_start_idx 6 = 28 \<and> length (hex_stencil_r 6) = 4
   \<and> entry (hex_M 2 3 6) 28 13 = - 4 * 2 / (h 6)\<^sup>2 - 1 / 3
   \<and> entry (hex_M 2 3 6) 28 14 = 4 * 2 / (3 * (h 6)\<^sup>2)
   \<and> entry (hex_M 2 3 6) 28 15 = 0
   \<and> entry (hex_M 2 3 6) 32 14 = - 4 * 2 / (h 6)\<^sup>2 - 1 / 3
   \<and> entry (hex_M 2 3 6) 32 13 = 4 * 2 / (3 * (h 6)\<^sup>2)"
proof -
  have v: "valid_N 6" by (simp add: valid_N_def)
  have l: "0 < length (hex_stencil_r 6)" "0 < length (hex_stencil_l 6)" "length (hex_stencil_r 6) = 4"
    by (simp_all add: length_hex_stencil_r [OF v] length_hex_stencil_l [OF v])
  have n: "hex_stencil_r 6 ! 0 = [7, 13, 14, 19]" "hex_stencil_l 6 ! 0 = [8, 13, 14, 20]"
    by code_simp+
  have s: "hex_rows_bulk_start_idx 6 = 28" by (simp add: hex_start [OF v])
  note d = hex_stencil_coefficients [OF v, of 2 3]
  from d l(1) have r: "\<forall>c. entry (hex_M 2 3 6) (hex_rows_bulk_start_idx 6 + int 0) c
                = (if c = hex_stencil_r 6 ! 0 ! 1 then - 4 * 2 / (h 6)\<^sup>2 - 1 / 3
                   else if c \<in> {hex_stencil_r 6 ! 0 ! 0, hex_stencil_r 6 ! 0 ! 2, hex_stencil_r 6 ! 0 ! 3}
                   then 4 * 2 / (3 * (h 6)\<^sup>2) else 0)"
    by blast
  from d l(2) have h: "\<forall>c. entry (hex_M 2 3 6)
                     (hex_rows_bulk_start_idx 6 + int (length (hex_stencil_r 6)) + int 0) c
                = (if c = hex_stencil_l 6 ! 0 ! 2 then - 4 * 2 / (h 6)\<^sup>2 - 1 / 3
                   else if c \<in> {hex_stencil_l 6 ! 0 ! 0, hex_stencil_l 6 ! 0 ! 1, hex_stencil_l 6 ! 0 ! 3}
                   then 4 * 2 / (3 * (h 6)\<^sup>2) else 0)"
    by blast
  from r [rule_format, of 13] r [rule_format, of 14] r [rule_format, of 15]
       h [rule_format, of 14] h [rule_format, of 13] v l n s
  show ?thesis by (simp add: n s l)
qed

section \<open>Stencil rows of the rectangular matrix\<close>

lemma nth_concat_meshgrid:
  "a < length xs \<Longrightarrow> b < length ys \<Longrightarrow>
     concat (meshgrid f xs ys) ! (b * length xs + a) = f (xs ! a) (ys ! b)"
proof (induction ys arbitrary: b)
  case Nil
  then show ?case by simp
next
  case (Cons y ys)
  show ?case
  proof (cases b)
    case 0
    with Cons.prems show ?thesis by (simp add: meshgrid_def nth_append)
  next
    case (Suc b')
    with Cons.prems have "b' < length ys" by simp
    from Cons.IH [OF Cons.prems(1) this]
    have ih: "concat (meshgrid f xs ys) ! (b' * length xs + a) = f (xs ! a) (ys ! b')" .
    have "concat (meshgrid f xs (y # ys)) ! (b * length xs + a)
        = (map (\<lambda>x. f x y) xs @ concat (meshgrid f xs ys)) ! (length (map (\<lambda>x. f x y) xs) + (b' * length xs + a))"
      by (simp add: meshgrid_def Suc add.assoc)
    also have "\<dots> = concat (meshgrid f xs ys) ! (b' * length xs + a)"
      by (rule nth_append_length_plus)
    finally show ?thesis using ih Suc by simp
  qed
qed

lemma nth_arange: "a + int k < b \<Longrightarrow> arange a b ! k = a + int k"
  by (simp add: arange_def)

lemma length_rect_centr: "length (rect_centr N) = nat (N - 2) * nat (N - 2)"
  by (simp add: rect_centr_def length_meshgrid_concat length_arange)

lemma rect_centr_nth:
  assumes "a < nat (N - 2)" "b < nat (N - 2)"
  shows "rect_centr N ! (b * nat (N - 2) + a) = (1 + int b) * N + (1 + int a)"
proof -
  have "rect_centr N ! (b * length (arange 1 (N - 1)) + a)
      = (arange 1 (N - 1) ! b) * N + arange 1 (N - 1) ! a"
    unfolding rect_centr_def using assms by (intro nth_concat_meshgrid) (simp_all add: length_arange)
  moreover have "arange 1 (N - 1) ! a = 1 + int a" "arange 1 (N - 1) ! b = 1 + int b"
    using assms by (simp_all add: nth_arange)
  ultimately show ?thesis by (simp add: length_arange)
qed

lemma rowcol_unique:
  fixes N :: int
  assumes "q * N + r = q' * N + r'" "0 \<le> r" "r < N" "0 \<le> r'" "r' < N"
  shows "q = q' \<and> r = r'"
proof -
  have "(q * N + r) div N = q" using assms(2,3) by simp
  moreover have "(q' * N + r') div N = q'" using assms(4,5) by simp
  ultimately have "q = q'" using arg_cong [OF assms(1), of "\<lambda>v. v div N"] by simp
  with assms(1) show ?thesis by simp
qed

lemma rect_centr_index_unique:
  assumes "a < nat (N - 2)" "b < nat (N - 2)" "k' < length (rect_centr N)"
    and "rect_centr N ! k' = rect_centr N ! (b * nat (N - 2) + a)"
  shows "k' = b * nat (N - 2) + a"
proof -
  define m where "m = nat (N - 2)"
  from assms(1) have m: "0 < m" "int m = N - 2" by (simp_all add: m_def)
  from assms(3) have k': "k' < m * m" by (simp add: length_rect_centr m_def)
  then have d: "k' div m < m" "k' mod m < m" using m(1)
    by (simp_all add: less_mult_imp_div_less)
  have "rect_centr N ! (k' div m * m + k' mod m) = (1 + int (k' div m)) * N + (1 + int (k' mod m))"
    using d unfolding m_def by (intro rect_centr_nth)
  moreover have "rect_centr N ! (b * m + a) = (1 + int b) * N + (1 + int a)"
    using assms(1,2) unfolding m_def by (intro rect_centr_nth)
  ultimately have "(1 + int (k' div m)) * N + (1 + int (k' mod m)) = (1 + int b) * N + (1 + int a)"
    using assms(4) by (simp add: m_def)
  moreover have "1 + int (k' mod m) < N" "1 + int a < N"
  proof -
    from d(2) have "int (k' mod m) < int m" by simp
    then show "1 + int (k' mod m) < N" using m(2) by linarith
    from assms(1) show "1 + int a < N" by linarith
  qed
  ultimately have "1 + int (k' div m) = 1 + int b \<and> 1 + int (k' mod m) = 1 + int a"
    by (intro rowcol_unique [of _ N]) simp_all
  then have "k' div m = b" "k' mod m = a" by simp_all
  then have "k' = b * m + a" using div_mult_mod_eq [of k' m] by simp
  then show ?thesis by (simp add: m_def)
qed

lemma length_rect_stencil: "length (rect_stencil N) = nat (N - 2) * nat (N - 2)"
  by (simp add: rect_stencil_def length_rect_centr)

lemma rect_M_bulk_row:
  fixes F :: "int \<times> int \<times> real \<Rightarrow> real"
  assumes "valid_N N" "k < length (rect_stencil N)"
    and "\<And>r y. r \<noteq> rect_rows_bulk_start_idx N + int k \<Longrightarrow> F (r, y) = 0"
  shows "sum_list (map F (rect_M mu dt N))
       = sum_list (map (\<lambda>y. F (rect_rows_bulk_start_idx N + int k, y))
           (zip (rect_stencil N ! k)
                [mu / (h N)\<^sup>2, mu / (h N)\<^sup>2, - 1 / dt - mu * 4 / (h N)\<^sup>2, mu / (h N)\<^sup>2,
                 mu / (h N)\<^sup>2]))"
proof -
  define cs where "cs = [mu / (h N)\<^sup>2, mu / (h N)\<^sup>2, - 1 / dt - mu * 4 / (h N)\<^sup>2, mu / (h N)\<^sup>2,
                 mu / (h N)\<^sup>2]"
  have lcs: "length cs = 5" by (simp add: cs_def)
  from assms(1) have N: "0 \<le> N - 2" by (simp add: valid_N_def)
  have cnt: "nat ((N - 2) * (N - 2)) = length (rect_stencil N)"
    using N by (simp add: length_rect_stencil nat_mult_distrib)
  have "int (length (rect_bcs_all N)) \<le> rect_rows_bulk_start_idx N + int k"
    using assms(1) by (simp add: rect_start length_rect_bcs_all valid_N_def)
  then have 1: "sum_list (map F (rect_I_bc N)) = 0"
    unfolding rect_I_bc_def rect_rows_bc_def by (intro I_bc_sum_zero assms(3))
  have "\<forall>row \<in> set (rect_stencil N). length row = length cs"
    by (auto simp: lcs rect_stencil_def)
  note bulk_row_sum [of "rect_rows_bulk_start_idx N" k F "rect_stencil N" cs, OF assms(3) this,
      unfolded lcs]
  moreover have "rect_A mu dt N = csr_matrix (tile cs (length (rect_stencil N)))
       (map (\<lambda>v. rect_rows_bulk_start_idx N + v) (repeat (arange 0 (int (length (rect_stencil N)))) 5))
       (concat (rect_stencil N))"
    unfolding rect_A_def rect_rows_def rect_elmt_def rect_cols_def cnt cs_def
    by (simp add: rect_stencil_def)
  ultimately have 2: "sum_list (map F (rect_A mu dt N))
      = sum_list (map (\<lambda>y. F (rect_rows_bulk_start_idx N + int k, y)) (zip (rect_stencil N ! k) cs))"
    using assms(2) by simp
  from 1 2 show ?thesis by (simp add: rect_M_def cs_def)
qed

text \<open>
  C5. For an interior node \<open>c = j * N + i\<close> with \<open>1 \<le> i, j \<le> N - 2\<close> of the rectangular mesh,
  stencil row number \<open>(j - 1) * (N - 2) + (i - 1)\<close> has the columns
  \<open>c - N, c - 1, c, c + 1, c + N\<close>, and no other stencil row has this set of columns. The
  matrix row of this stencil (it follows the boundary rows) has \<open>- 1 / dt - 4 mu / h\<^sup>2\<close> in
  column \<open>c\<close>, \<open>mu / h\<^sup>2\<close> in the four neighbour columns and 0 elsewhere, with \<open>h = 1 / N\<close>.
\<close>

theorem rect_stencil_rows:
  fixes N i j :: int
  defines "c \<equiv> j * N + i" and "k \<equiv> nat ((j - 1) * (N - 2) + (i - 1))"
  assumes "valid_N N" "1 \<le> i" "i \<le> N - 2" "1 \<le> j" "j \<le> N - 2"
  shows "k < length (rect_stencil N)
       \<and> rect_stencil N ! k = [c - N, c - 1, c, c + 1, c + N]
       \<and> (\<forall>k'<length (rect_stencil N).
             set (rect_stencil N ! k') = {c - N, c - 1, c, c + 1, c + N} \<longrightarrow> k' = k)
       \<and> (\<forall>col. entry (rect_M mu dt N) (rect_rows_bulk_start_idx N + int k) col
             = (if col = c then - 1 / dt - 4 * mu / (h N)\<^sup>2
                else if col \<in> {c - N, c - 1, c + 1, c + N} then mu / (h N)\<^sup>2 else 0))
       \<and> h N = 1 / real_of_int N"
proof -
  from assms(3) have N: "4 < N" by (simp add: valid_N_def)
  define m a b where "m = nat (N - 2)" and "a = nat (i - 1)" and "b = nat (j - 1)"
  have ab: "a < m" "b < m" using assms(4-7) by (simp_all add: m_def a_def b_def)
  have ia: "int a = i - 1" "int b = j - 1" "int m = N - 2"
    using assms(4-7) N by (simp_all add: m_def a_def b_def)
  have "int (b * m + a) = (j - 1) * (N - 2) + (i - 1)" by (simp add: ia)
  then have k: "k = b * m + a" unfolding k_def by (metis nat_int)
  have "b * m + a < (b + 1) * m" using ab(1) by simp
  also have "\<dots> \<le> m * m" using ab(2) by (intro mult_le_mono1) simp
  finally have klt: "k < length (rect_stencil N)" by (simp add: k length_rect_stencil m_def)
  have "(1 + int b) * N + (1 + int a) = c" unfolding ia c_def by simp
  with rect_centr_nth [OF ab [unfolded m_def]] have ck: "rect_centr N ! k = c"
    unfolding k m_def by simp
  have row: "rect_stencil N ! k' = [rect_centr N ! k' - N, rect_centr N ! k' - 1, rect_centr N ! k',
       rect_centr N ! k' + 1, rect_centr N ! k' + N]" if "k' < length (rect_stencil N)" for k'
    using that by (simp add: rect_stencil_def)
  have uniq: "k' = k" if k': "k' < length (rect_stencil N)"
    and eq: "set (rect_stencil N ! k') = {c - N, c - 1, c, c + 1, c + N}" for k'
  proof -
    define c' where "c' = rect_centr N ! k'"
    from eq have s: "{c' - N, c' - 1, c', c' + 1, c' + N} = {c - N, c - 1, c, c + 1, c + N}"
      by (simp add: row [OF k'] c'_def)
    have "c' - N \<in> {c - N, c - 1, c, c + 1, c + N}" using s by blast
    moreover have "c - N \<in> {c' - N, c' - 1, c', c' + 1, c' + N}" using s by blast
    ultimately have "c' = c" using N by auto
    then have "rect_centr N ! k' = rect_centr N ! (b * nat (N - 2) + a)"
      using ck by (simp add: c'_def k m_def)
    moreover from k' have "k' < length (rect_centr N)" by (simp add: rect_stencil_def)
    ultimately show ?thesis
      using rect_centr_index_unique [OF ab [unfolded m_def]] by (simp add: k m_def)
  qed
  have ent: "entry (rect_M mu dt N) (rect_rows_bulk_start_idx N + int k) col
             = (if col = c then - 1 / dt - 4 * mu / (h N)\<^sup>2
                else if col \<in> {c - N, c - 1, c + 1, c + N} then mu / (h N)\<^sup>2 else 0)" for col
    unfolding entry_def
    by (subst rect_M_bulk_row [OF assms(3) klt]) (use N in \<open>auto simp: row [OF klt] ck\<close>)
  have "rect_stencil N ! k = [c - N, c - 1, c, c + 1, c + N]"
    by (simp add: row [OF klt] ck)
  moreover have "h N = 1 / real_of_int N" by (simp add: h_def)
  ultimately show ?thesis using klt uniq ent by blast
qed

theorem rect_stencil_rows_witness:
  "valid_N 6 \<and> (1::int) \<le> 2 \<and> (2::int) \<le> 6 - 2 \<and> (1::int) \<le> 3 \<and> (3::int) \<le> 6 - 2
   \<and> rect_stencil 6 ! 9 = [14, 19, 20, 21, 26]
   \<and> entry (rect_M 2 3 6) (rect_rows_bulk_start_idx 6 + 9) 20 = - 1 / 3 - 4 * 2 / (h 6)\<^sup>2
   \<and> entry (rect_M 2 3 6) (rect_rows_bulk_start_idx 6 + 9) 26 = 2 / (h 6)\<^sup>2
   \<and> entry (rect_M 2 3 6) (rect_rows_bulk_start_idx 6 + 9) 25 = 0"
proof -
  have v: "valid_N 6" by (simp add: valid_N_def)
  note d = rect_stencil_rows [OF v, of 2 3 2 3]
  have k: "nat ((3 - 1) * (6 - 2) + (2 - 1)) = (9::nat)" by simp
  from d have r: "rect_stencil 6 ! 9 = [14, 19, 20, 21, 26]" by (simp add: k)
  from d have e: "\<forall>col. entry (rect_M 2 3 6) (rect_rows_bulk_start_idx 6 + int 9) col
             = (if col = 20 then - 1 / 3 - 4 * 2 / (h 6)\<^sup>2
                else if col \<in> {14, 19, 21, 26} then 2 / (h 6)\<^sup>2 else 0)"
    by (simp add: k)
  from e [rule_format, of 20] e [rule_format, of 26] e [rule_format, of 25] r v
  show ?thesis by simp
qed

section \<open>Spacing of the hexagonal mesh\<close>

lemma cumsum_from_nth:
  "k < length xs \<Longrightarrow> cumsum_from acc xs ! k = acc + sum_list (take (Suc k) xs)"
proof (induction xs arbitrary: acc k)
  case Nil
  then show ?case by simp
next
  case (Cons x xs)
  then show ?case by (cases k) (simp_all add: add.assoc)
qed

lemma cumsum_step:
  assumes "i < length row"
  shows "cumsum (v # row) ! Suc i - cumsum (v # row) ! i = row ! i"
proof -
  have "take (Suc i) row = take i row @ [row ! i]"
    using assms by (rule take_Suc_conv_app_nth)
  moreover have "cumsum (v # row) ! Suc i = 0 + sum_list (take (Suc (Suc i)) (v # row))"
    unfolding cumsum_def using assms by (intro cumsum_from_nth) simp
  moreover have "cumsum (v # row) ! i = 0 + sum_list (take (Suc i) (v # row))"
    unfolding cumsum_def using assms by (intro cumsum_from_nth) simp
  ultimately show ?thesis by simp
qed

lemma cumsum_first: "cumsum (v # row) ! 0 = v"
  by (simp add: cumsum_def)

lemma nth_meshgrid:
  "i < length xs \<Longrightarrow> j < length ys \<Longrightarrow> meshgrid f xs ys ! j ! i = f (xs ! i) (ys ! j)"
  by (simp add: meshgrid_def)

lemma nth_arange0: "int k < n \<Longrightarrow> arange 0 n ! k = int k"
  by (simp add: nth_arange)

lemma shortoff_nth:
  assumes "int j < N" "int i < N - 1"
  shows "shortoff N ! j ! i = (if (int i + 1) mod 2 = int j mod 2 then 1 else 0)"
  unfolding shortoff_def using assms
  by (subst nth_meshgrid) (simp_all add: length_arange nth_arange0)

lemma hex_dx_nth:
  assumes "int j < N" "int i < N - 1"
  shows "hex_dx N ! j ! i = (if (int i + 1) mod 2 = int j mod 2 then short_x N else long_x N)"
proof -
  have "j < length (shortoff N)" "i < length (shortoff N ! j)"
    using assms by (simp_all add: shortoff_def meshgrid_def length_arange)
  then have "hex_dx N ! j ! i
      = short_x N * real_of_int (shortoff N ! j ! i) + long_x N * real_of_int (1 - shortoff N ! j ! i)"
    by (simp add: hex_dx_def)
  then show ?thesis by (simp add: shortoff_nth [OF assms])
qed

lemma length_hex_dx: "length (hex_dx N) = nat N"
  by (simp add: hex_dx_def shortoff_def meshgrid_def length_arange)

lemma length_hex_dx_row: "int j < N \<Longrightarrow> length (hex_dx N ! j) = nat (N - 1)"
  by (simp add: hex_dx_def shortoff_def meshgrid_def length_arange)

lemma hex_x_grid_nth:
  assumes "int j < N"
  shows "hex_x_grid N ! j
       = cumsum ((if int j mod 2 = 1 then off_x N else 0) # hex_dx N ! j)"
proof -
  have "j < length (initoff N)" "j < length (hex_dx N)"
    using assms by (simp_all add: initoff_def length_arange length_hex_dx)
  moreover have "initoff N ! j = (if int j mod 2 = 1 then 1 else 0)"
    using assms by (simp add: initoff_def length_arange nth_arange0)
  ultimately show ?thesis by (simp add: hex_x_grid_def)
qed

lemma hex_x_grid_step:
  assumes "int j < N" "int i < N - 1"
  shows "hex_x_grid N ! j ! Suc i - hex_x_grid N ! j ! i = hex_dx N ! j ! i"
proof -
  from assms(2) have "i < length (hex_dx N ! j)" by (simp add: length_hex_dx_row [OF assms(1)])
  then show ?thesis unfolding hex_x_grid_nth [OF assms(1)] by (rule cumsum_step)
qed

lemma hex_x_grid_first:
  assumes "int j < N"
  shows "hex_x_grid N ! j ! 0 = (if int j mod 2 = 1 then off_x N else 0)"
  unfolding hex_x_grid_nth [OF assms] cumsum_first ..

text \<open>
  C6. Before normalization, in every row \<open>j\<close> of the hexagonal mesh the spacing between the
  nodes in columns \<open>i\<close> and \<open>i + 1\<close> is the short unit when \<open>(i + 1) mod 2 = j mod 2\<close> and the
  long unit otherwise; the long unit is twice the short unit; the first node of an odd
  row lies at half a short unit and the first node of an even row at 0.
\<close>

theorem hex_spacing:
  assumes "valid_N N" "int j < N" "int i < N - 1"
  shows "hex_dx N ! j ! i = (if (int i + 1) mod 2 = int j mod 2 then short_x N else long_x N)
       \<and> hex_x_grid N ! j ! Suc i - hex_x_grid N ! j ! i = hex_dx N ! j ! i
       \<and> long_x N = 2 * short_x N \<and> 0 < short_x N
       \<and> hex_x_grid N ! j ! 0 = (if int j mod 2 = 1 then short_x N / 2 else 0)"
proof -
  from assms(1) have N: "0 < N" by (simp add: valid_N_def)
  have "hex_x_grid N ! j ! Suc i - hex_x_grid N ! j ! i = hex_dx N ! j ! i"
    using assms(2,3) by (rule hex_x_grid_step)
  moreover have "hex_x_grid N ! j ! 0 = (if int j mod 2 = 1 then short_x N / 2 else 0)"
    unfolding hex_x_grid_first [OF assms(2)] by (simp add: off_x_def short_x_def)
  moreover have "long_x N = 2 * short_x N" "0 < short_x N"
    using N by (simp_all add: long_x_def short_x_def hhat_def)
  ultimately show ?thesis using hex_dx_nth [OF assms(2,3)] by simp
qed

theorem hex_spacing_witness:
  "valid_N 6 \<and> int 1 < 6 \<and> int 0 < 6 - 1
   \<and> hex_x_grid 6 ! 1 ! Suc 0 - hex_x_grid 6 ! 1 ! 0 = short_x 6
   \<and> hex_x_grid 6 ! 1 ! 0 = short_x 6 / 2 \<and> long_x 6 = 2 * short_x 6"
proof -
  have v: "valid_N 6" by (simp add: valid_N_def)
  from hex_spacing [OF v, of 1 0] v show ?thesis by simp
qed

section \<open>Coordinates after normalization\<close>

lemma normalize_unit:
  assumes nonneg: "\<forall>v \<in> set xs. 0 \<le> v" and zero: "0 \<in> set xs" and pos: "p \<in> set xs" "0 < p"
  shows "list_all unit_interval (normalize xs)" "0 \<in> set (normalize xs)" "1 \<in> set (normalize xs)"
    "Max (set (normalize xs)) = 1"
proof -
  define M where "M = Max (set xs)"
  have fin: "finite (set xs)" "set xs \<noteq> {}" using zero by auto
  have le: "v \<le> M" if "v \<in> set xs" for v unfolding M_def using that by (intro Max_ge) auto
  have Min: "M \<in> set xs" unfolding M_def using fin by (rule Max_in)
  from le [OF pos(1)] pos(2) have Mpos: "0 < M" by simp
  show u: "list_all unit_interval (normalize xs)"
    using nonneg le Mpos by (auto simp: list_all_iff normalize_def unit_interval_def M_def [symmetric])
  have "0 / M \<in> (\<lambda>v. v / M) ` set xs" using zero by (rule imageI)
  then show "0 \<in> set (normalize xs)" by (simp add: normalize_def M_def)
  have "M / M \<in> set (normalize xs)" unfolding normalize_def M_def [symmetric] using Min by simp
  then show one: "1 \<in> set (normalize xs)" using Mpos by simp
  show "Max (set (normalize xs)) = 1"
  proof (rule Max_eqI)
    show "finite (set (normalize xs))" by simp
    show "y \<le> 1" if "y \<in> set (normalize xs)" for y
      using u that by (auto simp: list_all_iff unit_interval_def)
    show "1 \<in> set (normalize xs)" by (rule one)
  qed
qed

lemma cumsum_from_nonneg:
  "0 \<le> acc \<Longrightarrow> \<forall>x \<in> set xs. 0 \<le> x \<Longrightarrow> v \<in> set (cumsum_from acc xs) \<Longrightarrow> 0 \<le> v"
proof (induction xs arbitrary: acc)
  case Nil
  then show ?case by simp
next
  case (Cons x xs)
  from Cons.prems have a: "0 \<le> acc + x" by simp
  from Cons.prems(3) have "v = acc + x \<or> v \<in> set (cumsum_from (acc + x) xs)" by simp
  then show ?case
  proof
    assume "v = acc + x"
    with a show ?thesis by simp
  next
    assume "v \<in> set (cumsum_from (acc + x) xs)"
    with Cons.IH [OF a] Cons.prems(2) show ?thesis by simp
  qed
qed

lemma hhat_pos: "valid_N N \<Longrightarrow> 0 < hhat N"
  by (simp add: hhat_def valid_N_def)

lemma hex_dx_nonneg:
  assumes "valid_N N" "row \<in> set (hex_dx N)" "v \<in> set row"
  shows "0 \<le> v"
proof -
  from assms(2,3) have "v = short_x N \<or> v = long_x N"
    by (auto simp: hex_dx_def shortoff_def meshgrid_def)
  with hhat_pos [OF assms(1)] show ?thesis by (auto simp: short_x_def long_x_def)
qed

lemma hex_x_grid_nonneg:
  assumes "valid_N N" "row \<in> set (hex_x_grid N)" "v \<in> set row"
  shows "0 \<le> v"
proof -
  from assms(2) obtain i dx where i: "i \<in> set (initoff N)" and dx: "dx \<in> set (hex_dx N)"
    and row: "row = cumsum ((real_of_int i * off_x N) # dx)"
    by (auto simp: hex_x_grid_def dest: set_zip_leftD set_zip_rightD)
  from i have "i = 0 \<or> i = 1" by (auto simp: initoff_def)
  with hhat_pos [OF assms(1)] have "0 \<le> real_of_int i * off_x N" by (auto simp: off_x_def)
  moreover have "\<forall>x \<in> set dx. 0 \<le> x" using hex_dx_nonneg [OF assms(1) dx] by blast
  ultimately have nn: "\<forall>x \<in> set ((real_of_int i * off_x N) # dx). 0 \<le> x" by simp
  from assms(3) have "v \<in> set (cumsum_from 0 ((real_of_int i * off_x N) # dx))"
    by (simp only: row cumsum_def)
  with nn show ?thesis by (rule cumsum_from_nonneg [OF order_refl])
qed

lemma grid_entry_in_concat:
  "j < length g \<Longrightarrow> i < length (g ! j) \<Longrightarrow> g ! j ! i \<in> set (concat g)"
  by (metis nth_mem set_concat UN_I)

lemma hex_x_unit:
  assumes "valid_N N"
  shows "list_all unit_interval (hex_x N)" "0 \<in> set (hex_x N)" "1 \<in> set (hex_x N)"
    "Max (set (hex_x N)) = 1"
proof -
  from assms have N: "4 < N" by (simp add: valid_N_def)
  have len: "0 < length (hex_x_grid N)" "1 < length (hex_x_grid N ! 0)"
    using N length_hex_x_grid_row [of N "hex_x_grid N ! 0"] by (simp_all add: length_hex_x_grid)
  have nonneg: "\<forall>v \<in> set (concat (hex_x_grid N)). 0 \<le> v"
    using hex_x_grid_nonneg [OF assms] by auto
  have j0: "int 0 < N" "int 0 < N - 1" using N by simp_all
  have z: "hex_x_grid N ! 0 ! 0 = 0" using hex_x_grid_first [OF j0(1)] by simp
  from len have len0: "0 < length (hex_x_grid N ! 0)" by linarith
  have "hex_x_grid N ! 0 ! 0 \<in> set (concat (hex_x_grid N))"
    using len(1) len0 by (rule grid_entry_in_concat)
  then have zero: "0 \<in> set (concat (hex_x_grid N))" unfolding z .
  have "hex_x_grid N ! 0 ! Suc 0 = long_x N"
    using hex_x_grid_step [OF j0] hex_dx_nth [OF j0] z by simp
  moreover have "0 < long_x N" using hhat_pos [OF assms] by (simp add: long_x_def)
  moreover have "hex_x_grid N ! 0 ! Suc 0 \<in> set (concat (hex_x_grid N))"
    using len by (intro grid_entry_in_concat) (simp_all only: One_nat_def)
  ultimately have pos: "long_x N \<in> set (concat (hex_x_grid N))" "0 < long_x N" by simp_all
  show "list_all unit_interval (hex_x N)" "0 \<in> set (hex_x N)" "1 \<in> set (hex_x N)"
    "Max (set (hex_x N)) = 1"
    unfolding hex_x_def by (rule normalize_unit [OF nonneg zero pos])+
qed

lemma set_concat_meshgrid:
  "set (concat (meshgrid f xs ys)) = {f x y | x y. x \<in> set xs \<and> y \<in> set ys}"
  by (auto simp: meshgrid_def)

lemma meshgrid_entry:
  "x \<in> set xs \<Longrightarrow> y \<in> set ys \<Longrightarrow> f x y \<in> set (concat (meshgrid f xs ys))"
  unfolding set_concat_meshgrid by blast

lemma off_y_pos: "valid_N N \<Longrightarrow> 0 < off_y N"
  using hhat_pos [of N] by (simp add: off_y_def)

lemma hex_y_unit:
  assumes "valid_N N"
  shows "list_all unit_interval (hex_y N)" "0 \<in> set (hex_y N)" "1 \<in> set (hex_y N)"
    "Max (set (hex_y N)) = 1"
proof -
  from assms have N: "4 < N" by (simp add: valid_N_def)
  note p = off_y_pos [OF assms]
  have nonneg: "\<forall>v \<in> set (concat (hex_y_grid N)). 0 \<le> v"
    unfolding hex_y_grid_def set_concat_meshgrid using p by (auto simp: set_arange)
  have in01: "0 \<in> set (arange 0 N)" "1 \<in> set (arange 0 N)" using N by (simp_all add: set_arange)
  have "off_y N * real_of_int 0 \<in> set (concat (hex_y_grid N))"
    unfolding hex_y_grid_def by (rule meshgrid_entry [OF in01(1) in01(1)])
  then have zero: "0 \<in> set (concat (hex_y_grid N))" by simp
  have "off_y N * real_of_int 1 \<in> set (concat (hex_y_grid N))"
    unfolding hex_y_grid_def by (rule meshgrid_entry [OF in01(1) in01(2)])
  then have pos: "off_y N \<in> set (concat (hex_y_grid N))" by simp
  show "list_all unit_interval (hex_y N)" "0 \<in> set (hex_y N)" "1 \<in> set (hex_y N)"
    "Max (set (hex_y N)) = 1"
    unfolding hex_y_def by (rule normalize_unit [OF nonneg zero pos p])+
qed

lemma linspace_unit:
  assumes "valid_N N"
  shows "\<forall>v \<in> set (linspace N). 0 \<le> v \<and> v \<le> 1" "0 \<in> set (linspace N)" "1 \<in> set (linspace N)"
proof -
  from assms have N: "4 < N" by (simp add: valid_N_def)
  show "\<forall>v \<in> set (linspace N). 0 \<le> v \<and> v \<le> 1"
    using N by (auto simp: linspace_def set_arange field_simps)
  have "real_of_int 0 * (1 / real_of_int (N - 1)) \<in> set (linspace N)"
    unfolding linspace_def using N by (auto simp: set_arange simp del: of_int_0)
  then show "0 \<in> set (linspace N)" by simp
  have "real_of_int (N - 1) * (1 / real_of_int (N - 1)) \<in> set (linspace N)"
    unfolding linspace_def set_map set_arange using N by (intro imageI) simp
  then show "1 \<in> set (linspace N)" using N by simp
qed

lemma set_rect_xy:
  assumes "valid_N N"
  shows "set (rect_x N) = set (linspace N)" "set (rect_y N) = set (linspace N)"
  unfolding rect_x_def rect_y_def set_concat_meshgrid using linspace_unit(2) [OF assms] by auto

lemma Max_unit:
  assumes "\<forall>v \<in> set xs. 0 \<le> v \<and> v \<le> (1::real)" "1 \<in> set xs"
  shows "Max (set xs) = 1"
  using assms by (intro Max_eqI) auto

text \<open>
  C8. For every valid \<open>N\<close> all node coordinates of both meshes lie in the unit interval, on
  each axis some node has the coordinate 0 and some node has the coordinate 1, and the
  largest coordinate on each axis is 1.
\<close>

theorem coordinates_in_unit_square:
  assumes "valid_N N"
  shows "list_all unit_interval (hex_x N) \<and> list_all unit_interval (hex_y N)
       \<and> list_all unit_interval (rect_x N) \<and> list_all unit_interval (rect_y N)
       \<and> 0 \<in> set (hex_x N) \<and> 0 \<in> set (hex_y N) \<and> 0 \<in> set (rect_x N) \<and> 0 \<in> set (rect_y N)
       \<and> 1 \<in> set (hex_x N) \<and> 1 \<in> set (hex_y N) \<and> 1 \<in> set (rect_x N) \<and> 1 \<in> set (rect_y N)
       \<and> Max (set (hex_x N)) = 1 \<and> Max (set (hex_y N)) = 1
       \<and> Max (set (rect_x N)) = 1 \<and> Max (set (rect_y N)) = 1"
proof -
  note l = linspace_unit [OF assms]
  note r = set_rect_xy [OF assms]
  have "list_all unit_interval (rect_x N)" "list_all unit_interval (rect_y N)"
    using l(1) by (simp_all add: list_all_iff unit_interval_def r)
  moreover have "Max (set (rect_x N)) = 1" "Max (set (rect_y N)) = 1"
    unfolding r using l(1,3) by (rule Max_unit)+
  moreover have "0 \<in> set (rect_x N)" "0 \<in> set (rect_y N)" "1 \<in> set (rect_x N)" "1 \<in> set (rect_y N)"
    unfolding r by (rule l)+
  ultimately show ?thesis
    using hex_x_unit [OF assms] hex_y_unit [OF assms] by blast
qed

theorem coordinates_in_unit_square_witness:
  "valid_N 6 \<and> list_all unit_interval (hex_x 6) \<and> list_all unit_interval (rect_y 6)
   \<and> 0 \<in> set (hex_y 6) \<and> 1 \<in> set (hex_x 6) \<and> Max (set (hex_y 6)) = 1"
proof -
  have v: "valid_N 6" by (simp add: valid_N_def)
  from coordinates_in_unit_square [OF v] v show ?thesis by blast
qed

section \<open>One time step\<close>

lemma mat_vec_nth:
  assumes "int k < n"
  shows "mat_vec M u n ! k
       = sum_list (map (\<lambda>(r', c, v). if r' = int k then v * u ! nat c else 0) M)"
proof -
  have a: "arange 0 n ! k = int k" using assms by (rule nth_arange0)
  have "mat_vec M u n ! k
      = sum_list (map (\<lambda>(r', c, v). if r' = arange 0 n ! k then v * u ! nat c else 0) M)"
    using assms by (simp add: mat_vec_def length_arange)
  then show ?thesis unfolding a .
qed

lemma length_mat_vec: "length (mat_vec M u n) = nat n"
  by (simp add: mat_vec_def length_arange)

lemma bulk_rows_not_bc:
  assumes "int k < start"
  shows "\<forall>r \<in> set (map (\<lambda>v. start + v) (arange 0 n)). nat r \<noteq> k"
  using assms by (auto simp: set_arange split: if_splits)

lemma step_rhs_bc:
  assumes "length cs \<le> length b" "k < length cs" "int k < start"
  shows "assign_rows (assign_rows b (arange 0 (int (length cs))) (map2 g (gather xs cs) (gather ys cs)))
           (map (\<lambda>v. start + v) (arange 0 n)) vals ! k
       = g (xs ! nat (cs ! k)) (ys ! nat (cs ! k))"
proof -
  have "assign_rows (assign_rows b (arange 0 (int (length cs))) (map2 g (gather xs cs) (gather ys cs)))
           (map (\<lambda>v. start + v) (arange 0 n)) vals ! k
      = assign_rows b (arange 0 (int (length cs))) (map2 g (gather xs cs) (gather ys cs)) ! k"
    by (rule assign_rows_other) (rule bulk_rows_not_bc [OF assms(3)])
  also have "\<dots> = g (xs ! nat (cs ! k)) (ys ! nat (cs ! k))"
    using assms(1,2) by (rule assign_bc_rows)
  finally show ?thesis .
qed

text \<open>
  C3, amended. After one step of \<^verbatim>\<open>drawstep\<close> the solution vectors of both meshes have
  \<open>N * N\<close> entries, the time has advanced by \<open>dt\<close>, and the entry at every boundary node is
  the oracle at that node's coordinates at the time before the advance, the time at which
  the boundary rows of the right-hand side were filled.
\<close>

theorem drawstep_boundary:
  assumes "valid_N N" "drawstep f mu dt N s s'"
    and "length (rect_rhs s) = nat (N2 N)" "length (hex_rhs s) = nat (N2 N)"
  shows "length (rect_u s') = nat (N2 N) \<and> length (hex_u s') = nat (N2 N)
       \<and> time s' = time s + dt
       \<and> (\<forall>k<length (rect_bcs_all N).
            rect_u s' ! nat (rect_bcs_all N ! k)
              = f (time s) (rect_x N ! nat (rect_bcs_all N ! k)) (rect_y N ! nat (rect_bcs_all N ! k)))
       \<and> (\<forall>k<length (hex_bcs_all N).
            hex_u s' ! nat (hex_bcs_all N ! k)
              = f (time s) (hex_x N ! nat (hex_bcs_all N ! k)) (hex_y N ! nat (hex_bcs_all N ! k)))"
proof (intro conjI allI impI)
  from assms(2) have rr: "rect_rhs s' = step_rect_rhs f dt N s" and hr: "hex_rhs s' = step_hex_rhs f dt N s"
    and rs: "spsolve (rect_M mu dt N) (rect_rhs s') (N2 N) (rect_u s')"
    and hs: "spsolve (hex_M mu dt N) (hex_rhs s') (N2 N) (hex_u s')"
    and t: "time s' = time s + dt"
    unfolding drawstep_def by blast+
  show "length (rect_u s') = nat (N2 N)" using rs by (simp add: spsolve_def)
  show "length (hex_u s') = nat (N2 N)" using hs by (simp add: spsolve_def)
  show "time s' = time s + dt" by (rule t)
  {
    fix k assume k: "k < length (rect_bcs_all N)"
    with bc_count_le(1) [OF assms(1)] have kn: "int k < N2 N" by linarith
    from k have ks: "int k < rect_rows_bulk_start_idx N"
      by (simp add: rect_start [OF assms(1)] length_rect_bcs_all [OF assms(1)])
    have "mat_vec (rect_M mu dt N) (rect_u s') (N2 N) ! k = rect_u s' ! nat (rect_bcs_all N ! k)"
      unfolding mat_vec_nth [OF kn] by (subst rect_M_bc_row [OF assms(1) _ k]) auto
    moreover have "step_rect_rhs f dt N s ! k
        = f (time s) (rect_x N ! nat (rect_bcs_all N ! k)) (rect_y N ! nat (rect_bcs_all N ! k))"
      unfolding step_rect_rhs_def rect_bulk_rhs_rows_def
      using bc_count_le(1) [OF assms(1)] k ks by (intro step_rhs_bc) (simp_all add: assms(3))
    ultimately show "rect_u s' ! nat (rect_bcs_all N ! k)
        = f (time s) (rect_x N ! nat (rect_bcs_all N ! k)) (rect_y N ! nat (rect_bcs_all N ! k))"
      using rs rr by (simp add: spsolve_def)
  }
  {
    fix k assume k: "k < length (hex_bcs_all N)"
    with bc_count_le(2) [OF assms(1)] have kn: "int k < N2 N" by linarith
    from k have ks: "int k < hex_rows_bulk_start_idx N"
      by (simp add: hex_start [OF assms(1)] length_hex_bcs_all [OF assms(1)])
    have "mat_vec (hex_M mu dt N) (hex_u s') (N2 N) ! k = hex_u s' ! nat (hex_bcs_all N ! k)"
      unfolding mat_vec_nth [OF kn] by (subst hex_M_bc_row [OF assms(1) _ k]) auto
    moreover have "step_hex_rhs f dt N s ! k
        = f (time s) (hex_x N ! nat (hex_bcs_all N ! k)) (hex_y N ! nat (hex_bcs_all N ! k))"
      unfolding step_hex_rhs_def hex_bulk_rhs_rows_def
      using bc_count_le(2) [OF assms(1)] k ks by (intro step_rhs_bc) (simp_all add: assms(4))
    ultimately show "hex_u s' ! nat (hex_bcs_all N ! k)
        = f (time s) (hex_x N ! nat (hex_bcs_all N ! k)) (hex_y N ! nat (hex_bcs_all N ! k))"
      using hs hr by (simp add: spsolve_def)
  }
qed

lemma assign_rows_Cons:
  "assign_rows b (r # rows) (v # vals) = assign_rows (b[nat r := v]) rows vals"
  by (simp add: assign_rows_def)

lemma assign_rows_nth:
  assumes "length rows = length vals" "distinct (map nat rows)" "k < length rows"
    "nat (rows ! k) < length b"
  shows "assign_rows b rows vals ! nat (rows ! k) = vals ! k"
  using assms
proof (induction rows vals arbitrary: b k rule: list_induct2)
  case Nil
  then show ?case by simp
next
  case (Cons r rows v vals)
  show ?case
  proof (cases k)
    case 0
    from Cons.prems(1) have notin: "nat r \<notin> set (map nat rows)" by simp
    have "\<forall>r' \<in> set rows. nat r' \<noteq> nat r"
    proof
      fix r' assume "r' \<in> set rows"
      then have "nat r' \<in> set (map nat rows)" by simp
      with notin show "nat r' \<noteq> nat r" by metis
    qed
    then have "assign_rows (b[nat r := v]) rows vals ! nat r = b[nat r := v] ! nat r"
      by (rule assign_rows_other)
    with Cons.prems(3) 0 show ?thesis by (simp add: assign_rows_Cons)
  next
    case (Suc k')
    with Cons.prems have "distinct (map nat rows)" "k' < length rows"
      "nat (rows ! k') < length (b[nat r := v])" by simp_all
    from Cons.IH [OF this] Suc show ?thesis by (simp add: assign_rows_Cons)
  qed
qed

lemma distinct_map_nat:
  assumes "distinct rows" "\<forall>r \<in> set rows. 0 \<le> r"
  shows "distinct (map nat rows)"
proof -
  have "inj_on nat (set rows)"
  proof (rule inj_onI)
    fix x y assume "x \<in> set rows" "y \<in> set rows" "nat x = nat y"
    with assms(2) show "x = y" by (simp add: eq_nat_nat_iff)
  qed
  with assms(1) show ?thesis by (simp add: distinct_map)
qed

lemma solve_crafted:
  fixes M :: coo
  assumes len_b: "length b = nat n"
    and rows: "int (length cs) + int (length centr) = n"
    and dist: "distinct centr" and rng: "\<forall>c \<in> set centr. 0 \<le> c \<and> c < n"
    and dt: "dt \<noteq> 0"
    and bc: "\<And>k. k < length cs \<Longrightarrow> mat_vec M target n ! k = g (xs ! nat (cs ! k)) (ys ! nat (cs ! k))"
  defines "bulk \<equiv> map (\<lambda>v. int (length cs) + v) (arange 0 (int (length centr)))"
  shows "mat_vec M target n
       = assign_rows (assign_rows b (arange 0 (int (length cs))) (map2 g (gather xs cs) (gather ys cs)))
           bulk (map (\<lambda>v. - v / dt) (gather (preimage_u M target bulk centr dt n) centr))"
proof (rule nth_equalityI)
  show "length (mat_vec M target n)
      = length (assign_rows (assign_rows b (arange 0 (int (length cs))) (map2 g (gather xs cs) (gather ys cs)))
           bulk (map (\<lambda>v. - v / dt) (gather (preimage_u M target bulk centr dt n) centr)))"
    by (simp add: length_mat_vec length_assign_rows len_b)
next
  fix i assume "i < length (mat_vec M target n)"
  then have i: "i < nat n" by (simp add: length_mat_vec)
  define mv where "mv = mat_vec M target n"
  define vals where "vals = map (\<lambda>v. - v / dt) (gather (preimage_u M target bulk centr dt n) centr)"
  have lb: "length bulk = length centr" by (simp add: bulk_def length_arange)
  have bulk_nth: "bulk ! k = int (length cs) + int k" if "k < length centr" for k
    using that by (simp add: bulk_def length_arange nth_arange0)
  have "map nat bulk = map (\<lambda>x. length cs + x) [0..<length centr]"
    unfolding bulk_def arange_nat by (simp add: comp_def nat_add_distrib)
  then have dbulk: "distinct (map nat bulk)"
    by (simp add: distinct_map inj_on_def)
  have dcentr: "distinct (map nat centr)" using dist rng by (intro distinct_map_nat) auto
  from rows have cs_le: "length cs \<le> nat n" by linarith
  show "mat_vec M target n ! i
      = assign_rows (assign_rows b (arange 0 (int (length cs))) (map2 g (gather xs cs) (gather ys cs)))
           bulk (map (\<lambda>v. - v / dt) (gather (preimage_u M target bulk centr dt n) centr)) ! i"
  proof (cases "i < length cs")
    case True
    have "assign_rows (assign_rows b (arange 0 (int (length cs))) (map2 g (gather xs cs) (gather ys cs)))
           (map (\<lambda>v. int (length cs) + v) (arange 0 (int (length centr)))) vals ! i
        = g (xs ! nat (cs ! i)) (ys ! nat (cs ! i))"
      using cs_le True by (intro step_rhs_bc) (simp_all add: len_b)
    with bc [OF True] show ?thesis by (simp add: bulk_def vals_def)
  next
    case False
    define k where "k = i - length cs"
    from False i rows have k: "k < length centr" "i = length cs + k" unfolding k_def by linarith+
    have bi: "nat (bulk ! k) = i" using k by (simp add: bulk_nth)
    from rng nth_mem [OF k(1)] have "0 \<le> centr ! k \<and> centr ! k < n" by blast
    then have ck: "nat (centr ! k) < nat n" "0 \<le> centr ! k" by linarith+
    have "preimage_u M target bulk centr dt n ! nat (centr ! k)
        = map (\<lambda>v. - dt * v) (gather mv bulk) ! k"
      unfolding preimage_u_def mv_def using k(1) ck dcentr lb
      by (intro assign_rows_nth) (simp_all add: gather_def)
    also have "\<dots> = - dt * mv ! i" using k(1) lb bi by (simp add: gather_def)
    finally have "vals ! k = mv ! i" using k(1) dt by (simp add: vals_def gather_def)
    moreover have "assign_rows (assign_rows b (arange 0 (int (length cs))) (map2 g (gather xs cs) (gather ys cs)))
           bulk vals ! nat (bulk ! k) = vals ! k"
      using k(1) lb dbulk i bi
      by (intro assign_rows_nth) (simp_all add: vals_def gather_def length_assign_rows len_b)
    ultimately show ?thesis by (simp add: bi mv_def vals_def)
  qed
qed

lemma node_values_nth:
  "i < length xs \<Longrightarrow> i < length ys \<Longrightarrow> node_values f t xs ys ! i = f t (xs ! i) (ys ! i)"
  by (simp add: node_values_def)

lemma target_bc_rect:
  assumes "valid_N N" "k < length (rect_bcs_all N)"
  shows "mat_vec (rect_M mu dt N) (node_values f t (rect_x N) (rect_y N)) (N2 N) ! k
       = f t (rect_x N ! nat (rect_bcs_all N ! k)) (rect_y N ! nat (rect_bcs_all N ! k))"
proof -
  from assms(1) have N: "0 \<le> N" by (simp add: valid_N_def)
  from assms(2) bc_count_le(1) [OF assms(1)] have kn: "int k < N2 N" by linarith
  from rect_bcs_all_bounds [OF assms(1) nth_mem [OF assms(2)]]
  have "nat (rect_bcs_all N ! k) < nat (N2 N)" by (simp add: N2_def)
  then have "node_values f t (rect_x N) (rect_y N) ! nat (rect_bcs_all N ! k)
      = f t (rect_x N ! nat (rect_bcs_all N ! k)) (rect_y N ! nat (rect_bcs_all N ! k))"
    by (intro node_values_nth) (simp_all add: length_rect_x [OF N] length_rect_y [OF N])
  moreover have "mat_vec (rect_M mu dt N) (node_values f t (rect_x N) (rect_y N)) (N2 N) ! k
      = node_values f t (rect_x N) (rect_y N) ! nat (rect_bcs_all N ! k)"
    unfolding mat_vec_nth [OF kn] by (subst rect_M_bc_row [OF assms(1) _ assms(2)]) auto
  ultimately show ?thesis by simp
qed

lemma target_bc_hex:
  assumes "valid_N N" "k < length (hex_bcs_all N)"
  shows "mat_vec (hex_M mu dt N) (node_values f t (hex_x N) (hex_y N)) (N2 N) ! k
       = f t (hex_x N ! nat (hex_bcs_all N ! k)) (hex_y N ! nat (hex_bcs_all N ! k))"
proof -
  from assms(1) have N: "0 \<le> N" "1 \<le> N" by (simp_all add: valid_N_def)
  from assms(2) bc_count_le(2) [OF assms(1)] have kn: "int k < N2 N" by linarith
  from hex_bcs_all_bounds [OF assms(1) nth_mem [OF assms(2)]]
  have "nat (hex_bcs_all N ! k) < nat (N2 N)" by (simp add: N2_def)
  then have "node_values f t (hex_x N) (hex_y N) ! nat (hex_bcs_all N ! k)
      = f t (hex_x N ! nat (hex_bcs_all N ! k)) (hex_y N ! nat (hex_bcs_all N ! k))"
    by (intro node_values_nth) (simp_all add: length_hex_x [OF N(2)] length_hex_y [OF N(1)])
  moreover have "mat_vec (hex_M mu dt N) (node_values f t (hex_x N) (hex_y N)) (N2 N) ! k
      = node_values f t (hex_x N) (hex_y N) ! nat (hex_bcs_all N ! k)"
    unfolding mat_vec_nth [OF kn] by (subst hex_M_bc_row [OF assms(1) _ assms(2)]) auto
  ultimately show ?thesis by simp
qed

lemma valid_6: "valid_N 6"
  by (simp add: valid_N_def)

lemma example_lengths:
  "length (rect_rhs example_pre) = nat (N2 6)" "length (hex_rhs example_pre) = nat (N2 6)"
  by (simp_all add: example_pre_def rect_rhs0_def hex_rhs0_def length_assign_rows)

lemma example_step: "drawstep (exact_u mu0) mu0 dt0 6 example_pre example_post"
proof -
  have dt: "dt0 \<noteq> 0" by (simp add: dt0_def)
  have lr: "int (length (rect_bcs_all 6)) = 20" "int (length (rect_centr 6)) = 16"
    by (simp_all add: length_rect_bcs_all [OF valid_6] length_rect_centr)
  have lh: "int (length (hex_bcs_all 6)) = 28" "int (length (hex_centr 6)) = 8"
    by (simp_all add: length_hex_bcs_all [OF valid_6] hex_centr_def column_def
        length_hex_stencil_r [OF valid_6] length_hex_stencil_l [OF valid_6])
  have dr: "distinct (rect_centr 6)" by code_simp
  have dh: "distinct (hex_centr 6)" by code_simp
  have rr: "\<forall>c \<in> set (rect_centr 6). 0 \<le> c \<and> c < N2 6"
  proof
    fix c assume "c \<in> set (rect_centr 6)"
    from rect_centr_bounds [OF valid_6 this] show "0 \<le> c \<and> c < N2 6" by (simp add: N2_def)
  qed
  have rh: "\<forall>c \<in> set (hex_centr 6). 0 \<le> c \<and> c < N2 6"
    using hex_centr_bounds [OF valid_6] by (simp add: N2_def)
  have br: "rect_bulk_rhs_rows 6
      = map (\<lambda>v. int (length (rect_bcs_all 6)) + v) (arange 0 (int (length (rect_centr 6))))"
    by (simp add: rect_bulk_rhs_rows_def rect_start [OF valid_6] lr)
  have bh: "hex_bulk_rhs_rows 6
      = map (\<lambda>v. int (length (hex_bcs_all 6)) + v) (arange 0 (int (length (hex_centr 6))))"
    by (simp add: hex_bulk_rhs_rows_def hex_start [OF valid_6] lh)
  have "mat_vec (rect_M mu0 dt0 6) (node_values (exact_u mu0) 0 (rect_x 6) (rect_y 6)) (N2 6)
      = step_rect_rhs (exact_u mu0) dt0 6 example_pre"
    unfolding step_rect_rhs_def br
    using solve_crafted [of "rect_rhs0 (exact_u mu0) 6" "N2 6" "rect_bcs_all 6" "rect_centr 6" dt0
        "rect_M mu0 dt0 6" "node_values (exact_u mu0) 0 (rect_x 6) (rect_y 6)" "exact_u mu0 0"
        "rect_x 6" "rect_y 6", OF example_lengths(1) [unfolded example_pre_def, simplified] _ dr rr dt
        target_bc_rect [OF valid_6]]
    by (simp add: example_pre_def lr N2_def br)
  moreover have "mat_vec (hex_M mu0 dt0 6) (node_values (exact_u mu0) 0 (hex_x 6) (hex_y 6)) (N2 6)
      = step_hex_rhs (exact_u mu0) dt0 6 example_pre"
    unfolding step_hex_rhs_def bh
    using solve_crafted [of "hex_rhs0 (exact_u mu0) 6" "N2 6" "hex_bcs_all 6" "hex_centr 6" dt0
        "hex_M mu0 dt0 6" "node_values (exact_u mu0) 0 (hex_x 6) (hex_y 6)" "exact_u mu0 0"
        "hex_x 6" "hex_y 6", OF example_lengths(2) [unfolded example_pre_def, simplified] _ dh rh dt
        target_bc_hex [OF valid_6]]
    by (simp add: example_pre_def lh N2_def bh)
  moreover have "length (node_values (exact_u mu0) 0 (rect_x 6) (rect_y 6)) = nat (N2 6)"
    "length (node_values (exact_u mu0) 0 (hex_x 6) (hex_y 6)) = nat (N2 6)"
    by (simp_all add: node_values_def length_rect_x length_rect_y length_hex_x length_hex_y)
  ultimately show ?thesis
    by (simp add: drawstep_def spsolve_def example_post_def example_pre_def)
qed

lemma rect_node_0: "rect_bcs_all 6 ! 0 = 0" "rect_x 6 ! 0 = 0" "rect_y 6 ! 0 = 0"
proof -
  have u: "[0..5] = [0, 1, 2, 3, 4, 5 :: int]" by code_simp
  show "rect_bcs_all 6 ! 0 = 0" "rect_x 6 ! 0 = 0" "rect_y 6 ! 0 = 0"
    by (simp_all add: rect_bcs_all_def rect_bcs_bottom_def arange_def rect_x_def rect_y_def
        meshgrid_def linspace_def u)
qed

lemma exact_u_decays: "exact_u mu0 (0 + dt0) 0 0 \<noteq> exact_u mu0 0 0 0"
  by (simp add: exact_u_def mu0_def dt0_def)

theorem drawstep_boundary_witness:
  "valid_N 6 \<and> drawstep (exact_u mu0) mu0 dt0 6 example_pre example_post
   \<and> length (rect_rhs example_pre) = nat (N2 6) \<and> length (hex_rhs example_pre) = nat (N2 6)
   \<and> length (rect_u example_post) = nat (N2 6) \<and> length (hex_u example_post) = nat (N2 6)
   \<and> time example_post = time example_pre + dt0
   \<and> rect_u example_post ! nat (rect_bcs_all 6 ! 0)
        = exact_u mu0 (time example_pre) (rect_x 6 ! nat (rect_bcs_all 6 ! 0))
            (rect_y 6 ! nat (rect_bcs_all 6 ! 0))"
proof -
  have l: "0 < length (rect_bcs_all 6)" by (simp add: length_rect_bcs_all [OF valid_6])
  from drawstep_boundary [OF valid_6 example_step example_lengths] l
  show ?thesis using valid_6 example_step example_lengths by blast
qed

text \<open>
  C3, as stated, fails: in the example step the entry at boundary node 0 of the rectangular
  mesh is the oracle at time 0, which is 1, and not the oracle at the new time \<open>dt\<close>, which
  is below 1.
\<close>

theorem drawstep_boundary_counterexample:
  "valid_N 6 \<and> drawstep (exact_u mu0) mu0 dt0 6 example_pre example_post
   \<and> 0 < length (rect_bcs_all 6)
   \<and> rect_u example_post ! nat (rect_bcs_all 6 ! 0)
        \<noteq> exact_u mu0 (time example_post) (rect_x 6 ! nat (rect_bcs_all 6 ! 0))
            (rect_y 6 ! nat (rect_bcs_all 6 ! 0))"
proof -
  have l: "0 < length (rect_bcs_all 6)" by (simp add: length_rect_bcs_all [OF valid_6])
  have "0 < length (rect_x 6)" "0 < length (rect_y 6)"
    by (simp_all add: length_rect_x length_rect_y N2_def)
  then have "rect_u example_post ! 0 = exact_u mu0 0 0 0"
    by (simp add: example_post_def node_values_nth rect_node_0)
  moreover have "time example_post = 0 + dt0" by (simp add: example_post_def)
  ultimately have "rect_u example_post ! nat (rect_bcs_all 6 ! 0)
        \<noteq> exact_u mu0 (time example_post) (rect_x 6 ! nat (rect_bcs_all 6 ! 0))
            (rect_y 6 ! nat (rect_bcs_all 6 ! 0))"
    using exact_u_decays by (simp add: rect_node_0)
  with valid_6 example_step l show ?thesis by blast
qed

section \<open>Boundary nodes and centers of the rectangular mesh\<close>

lemma rect_node_cases:
  fixes N v :: int
  assumes "4 < N" "0 \<le> v" "v < N * N"
  obtains i j where "v = j * N + i" "0 \<le> i" "i < N" "0 \<le> j" "j < N"
proof -
  define i j where "i = v mod N" and "j = v div N"
  have v: "v = j * N + i" by (simp add: i_def j_def)
  have i: "0 \<le> i" "i < N" using assms(1) by (simp_all add: i_def)
  have j0: "0 \<le> j" using assms(1,2) by (simp add: j_def pos_imp_zdiv_nonneg_iff)
  have "j < N"
  proof (rule ccontr)
    assume "\<not> j < N"
    then have "N * N \<le> j * N" using assms(1) by (intro mult_right_mono) auto
    with v i assms(3) show False by linarith
  qed
  with v i j0 show ?thesis by (rule that)
qed

lemma rect_lists_cover:
  assumes "valid_N N" "0 \<le> v" "v < N * N"
  shows "v \<in> set (rect_bcs_all N @ rect_centr N)"
proof -
  from assms(1) have N: "4 < N" by (simp add: valid_N_def)
  from N assms(2,3) obtain i j where v: "v = j * N + i" and ij: "0 \<le> i" "i < N" "0 \<le> j" "j < N"
    by (rule rect_node_cases)
  consider (bottom) "j = 0" | (top) "j = N - 1" | (left) "1 \<le> j" "j < N - 1" "i = 0"
    | (right) "1 \<le> j" "j < N - 1" "i = N - 1" | (inner) "1 \<le> j" "j < N - 1" "1 \<le> i" "i < N - 1"
    using ij by linarith
  then show ?thesis
  proof cases
    case bottom
    with v ij have "v \<in> set (rect_bcs_bottom N)" by (simp add: rect_bcs_bottom_def set_arange)
    then show ?thesis by (simp add: rect_bcs_all_def)
  next
    case top
    with v ij have "v \<in> set (rect_bcs_top N)"
      by (auto simp: rect_bcs_top_def set_arange image_iff intro!: bexI [of _ i])
    then show ?thesis by (simp add: rect_bcs_all_def)
  next
    case left
    with v have "v \<in> set (rect_bcs_left N)"
      by (auto simp: rect_bcs_left_def set_arange image_iff intro!: bexI [of _ j])
    then show ?thesis by (simp add: rect_bcs_all_def)
  next
    case right
    with v have "v \<in> set (rect_bcs_right N)"
      by (auto simp: rect_bcs_right_def set_arange image_iff intro!: bexI [of _ j])
    then show ?thesis by (simp add: rect_bcs_all_def)
  next
    case inner
    then have "i \<in> set (arange 1 (N - 1))" "j \<in> set (arange 1 (N - 1))"
      by (simp_all add: set_arange)
    then have "j * N + i \<in> set (rect_centr N)"
      unfolding rect_centr_def by (rule meshgrid_entry)
    with v show ?thesis by simp
  qed
qed

text \<open>
  On the rectangular mesh the boundary list and the center list together hold every node
  index below \<open>N * N\<close> exactly once, for every valid \<open>N\<close>.
\<close>

lemma rect_partition:
  assumes "valid_N N"
  shows "distinct (rect_bcs_all N @ rect_centr N)"
    and "set (rect_bcs_all N @ rect_centr N) = {0..<N * N}"
proof -
  from assms have N: "4 < N" by (simp add: valid_N_def)
  show s: "set (rect_bcs_all N @ rect_centr N) = {0..<N * N}"
  proof (intro equalityI subsetI)
    fix v assume "v \<in> set (rect_bcs_all N @ rect_centr N)"
    then consider "v \<in> set (rect_bcs_all N)" | "v \<in> set (rect_centr N)" by auto
    then show "v \<in> {0..<N * N}"
    proof cases
      case 1
      from rect_bcs_all_bounds [OF assms this] show ?thesis by simp
    next
      case 2
      from rect_centr_bounds [OF assms this] N show ?thesis by simp
    qed
  next
    fix v assume "v \<in> {0..<N * N}"
    then show "v \<in> set (rect_bcs_all N @ rect_centr N)"
      using rect_lists_cover [OF assms, of v] by simp
  qed
  have "nat (4 * N - 4) + nat (N - 2) * nat (N - 2) = nat (N * N)"
  proof -
    have "nat (N - 2) * nat (N - 2) = nat ((N - 2) * (N - 2))"
      using N by (simp add: nat_mult_distrib)
    moreover have "(4 * N - 4) + (N - 2) * (N - 2) = N * N" by (simp add: algebra_simps)
    moreover have "0 \<le> 4 * N - 4" "0 \<le> (N - 2) * (N - 2)" using N by simp_all
    ultimately show ?thesis by (metis nat_add_distrib)
  qed
  then have "length (rect_bcs_all N @ rect_centr N) = nat (N * N)"
    by (simp add: length_rect_bcs_all [OF assms] length_rect_centr)
  moreover have "card (set (rect_bcs_all N @ rect_centr N)) = nat (N * N)"
    unfolding s by simp
  ultimately show "distinct (rect_bcs_all N @ rect_centr N)"
    by (intro card_distinct) simp
qed

section \<open>Boundary nodes and centers of the hexagonal mesh\<close>

lemma last_every_other: "odd (length xs) \<Longrightarrow> last (every_other xs) = last xs"
proof (induction xs rule: every_other.induct)
  case 1
  then show ?case by simp
next
  case (2 x)
  show ?case by simp
next
  case (3 x y xs)
  then have o: "odd (length xs)" by simp
  then have "xs \<noteq> []" by auto
  moreover from this have "every_other xs \<noteq> []" by (cases xs rule: every_other.cases) auto
  ultimately show ?case using 3 o by simp
qed

lemma last_in_tl: "1 < length xs \<Longrightarrow> last xs \<in> set (tl xs)"
  by (cases xs) auto

text \<open>
  On the hexagonal mesh the center list \<^verbatim>\<open>hex_centr\<close> meets the boundary list for every
  valid \<open>N\<close>: node \<open>4 * N - 1\<close>, the last node of row 3, is in both.
\<close>

lemma hex_centr_hits_right_boundary:
  assumes "valid_N N"
  shows "4 * N - 1 \<in> set (hex_bcs_all N)" and "4 * N - 1 \<in> set (hex_centr N)"
proof -
  from assms obtain m where m: "N = 2 * int m" "3 \<le> m" by (rule valid_N_half)
  from assms have N: "4 < N" by (simp add: valid_N_def)
  have "3 * N + N - 1 \<in> set (hex_bcs_right N)"
    unfolding hex_bcs_right_def set_map set_arange using N by (intro imageI) simp
  then show "4 * N - 1 \<in> set (hex_bcs_all N)" by (simp add: hex_bcs_all_def)
  define ev where "ev = every_other (arange 0 (N - 1))"
  have len: "length ev = nat (N div 2)" unfolding ev_def by (rule length_ev0 [OF assms])
  have "odd (length (arange 0 (N - 1)))" using m by (simp add: length_arange nat_diff_distrib' nat_mult_distrib)
  then have "last ev = last (arange 0 (N - 1))" unfolding ev_def by (rule last_every_other)
  also have "\<dots> = N - 2" using N last_arange [of "N - 1"] by simp
  finally have "N - 2 \<in> set (tl ev)" using last_in_tl [of ev] len m by simp
  then have "[1 + N + (N - 2), 1 + 2 * N + (N - 2), 2 + 2 * N + (N - 2), 3 * N + 1 + (N - 2)]
      \<in> set (tl (hex_tmp_r N))"
    unfolding hex_tmp_r_eq ev_def [symmetric] map_tl [symmetric] set_map
    by (rule imageI [of _ _ "\<lambda>e. [1 + N + e, 1 + 2 * N + e, 2 + 2 * N + e, 3 * N + 1 + e]"])
  then have "map (\<lambda>v. v + ((2 * 0 + 1) * N - 1))
        [1 + N + (N - 2), 1 + 2 * N + (N - 2), 2 + 2 * N + (N - 2), 3 * N + 1 + (N - 2)]
      \<in> set (shift ((2 * 0 + 1) * N - 1) (tl (hex_tmp_r N)))"
    unfolding shift_def set_map by (rule imageI)
  moreover have "0 \<in> set (arange 0 (N div 2 - 2))" using m by (simp add: set_arange)
  ultimately have "map (\<lambda>v. v + ((2 * 0 + 1) * N - 1))
        [1 + N + (N - 2), 1 + 2 * N + (N - 2), 2 + 2 * N + (N - 2), 3 * N + 1 + (N - 2)]
      \<in> set (hex_stencil_r N)"
    unfolding hex_stencil_r_def by (auto intro!: bexI [of _ 0])
  then have "map (\<lambda>v. v + ((2 * 0 + 1) * N - 1))
        [1 + N + (N - 2), 1 + 2 * N + (N - 2), 2 + 2 * N + (N - 2), 3 * N + 1 + (N - 2)] ! 2
      \<in> set (column 2 (hex_stencil_r N))"
    unfolding column_def set_map by (rule imageI)
  then show "4 * N - 1 \<in> set (hex_centr N)" by (simp add: hex_centr_def)
qed

end
